theory Spec2Isabelle
  imports Main
begin

section \<open>src/util.ts: the monotonic clock\<close>

text \<open>
  \<^verbatim>\<open>process.hrtime()\<close> returns the pair \<^verbatim>\<open>[seconds, nanoseconds]\<close> of the process's
  high-resolution clock; both are non-negative integers, and Node documents the second
  component as the part of the time that whole seconds do not cover, so it is below
  \<open>10^9\<close>. The clock reading is an input of the model.
\<close>

type_synonym hrtime = "nat \<times> nat"

text \<open>
  JavaScript's \<^verbatim>\<open>x | 0\<close> is ToInt32: the number is truncated toward zero and reduced
  modulo \<open>2^32\<close> into the signed 32-bit range. The operand \<^verbatim>\<open>nanoseconds / 1000000\<close> is
  the quotient of two non-negative integers, so its truncation is integer division.
\<close>

definition toInt32 :: "int \<Rightarrow> int" where
  "toInt32 x = (x + 2 ^ 31) mod 2 ^ 32 - 2 ^ 31"

definition monotonicTime :: "hrtime \<Rightarrow> int" where
  "monotonicTime hr =
     (case hr of (seconds, nanoseconds) \<Rightarrow>
        int seconds * 1000 + toInt32 (int nanoseconds div 1000000))"

text \<open>The order of two clock readings, and a reading in nanoseconds.\<close>

definition hrtime_le :: "hrtime \<Rightarrow> hrtime \<Rightarrow> bool" where
  "hrtime_le a b = (fst a < fst b \<or> (fst a = fst b \<and> snd a \<le> snd b))"

definition hrtime_ns :: "hrtime \<Rightarrow> int" where
  "hrtime_ns hr = int (fst hr) * 1000000000 + int (snd hr)"

section \<open>src/util.ts: DeadlineRunner\<close>

text \<open>
  A JavaScript promise is pending, fulfilled or rejected. The two resolving functions that
  \<^verbatim>\<open>new Promise((f, r) => ...)\<close> hands out act on a pending promise only: after the
  first call of either, every later call of either is a no-op (ECMAScript, Promise Resolve
  Functions). The runner keeps them as \<^verbatim>\<open>_fulfill\<close> and \<^verbatim>\<open>_reject\<close>.
\<close>

datatype ('a, 'e) promise = Pending | Fulfilled 'a | Rejected 'e

definition fulfill :: "('a, 'e) promise \<Rightarrow> 'a \<Rightarrow> ('a, 'e) promise" where
  "fulfill p v = (case p of Pending \<Rightarrow> Fulfilled v | _ \<Rightarrow> p)"

definition reject :: "('a, 'e) promise \<Rightarrow> 'e \<Rightarrow> ('a, 'e) promise" where
  "reject p e = (case p of Pending \<Rightarrow> Rejected e | _ \<Rightarrow> p)"

text \<open>The object \<^verbatim>\<open>{ result?: T, timedOut?: boolean }\<close>; an absent property is \<open>None\<close>.\<close>

record 'a outcome =
  result :: "'a option"
  timedOut :: "bool option"

text \<open>
  The part of the Node process the runner touches: the clock that \<^verbatim>\<open>monotonicTime()\<close>
  reads, and the table of the timers that are armed and have not run yet, each with its
  handle and the delay given to \<^verbatim>\<open>setTimeout\<close>. \<^verbatim>\<open>clearTimeout\<close> of a handle
  that is not armed does nothing.
\<close>

record node =
  hrtime :: hrtime
  timers :: "(nat \<times> int) list"
  nextTimer :: nat

definition setTimeout :: "int \<Rightarrow> 'z node_scheme \<Rightarrow> nat \<times> 'z node_scheme" where
  "setTimeout timeout w =
     (nextTimer w,
      w\<lparr>timers := timers w @ [(nextTimer w, timeout)], nextTimer := Suc (nextTimer w)\<rparr>)"

definition clearTimeout :: "nat \<Rightarrow> 'z node_scheme \<Rightarrow> 'z node_scheme" where
  "clearTimeout h w = w\<lparr>timers := filter (\<lambda>t. fst t \<noteq> h) (timers w)\<rparr>"

text \<open>
  The fields of the class: \<^verbatim>\<open>_timer\<close>, \<^verbatim>\<open>_done\<close> and the promise \<^verbatim>\<open>result\<close>. An error
  is any value \<open>'e\<close>; \<open>None\<close> is \<^verbatim>\<open>undefined\<close>, which \<^verbatim>\<open>_finish\<close> gets as its
  second argument when it is called with one. A deadline is a number of milliseconds on
  the scale of \<^verbatim>\<open>monotonicTime()\<close>, an integer as the values of that function are, or
  \<^verbatim>\<open>undefined\<close>.
\<close>

record ('a, 'e) DeadlineRunner = node +
  runner_timer :: "nat option"
  runner_done :: bool
  runner_result :: "('a outcome, 'e option) promise"

text \<open>
  \<^verbatim>\<open>setDeadline\<close> and \<^verbatim>\<open>_finish\<close> call each other. No statement of the class assigns
  \<^verbatim>\<open>_done\<close>, so the model has none either.
\<close>

function setDeadline :: "int option \<Rightarrow> ('a, 'e) DeadlineRunner \<Rightarrow> ('a, 'e) DeadlineRunner"
  and finish :: "'a outcome option \<Rightarrow> 'e option \<Rightarrow> ('a, 'e) DeadlineRunner
                   \<Rightarrow> ('a, 'e) DeadlineRunner"
where
  "setDeadline deadline w =
     (let w1 = (case runner_timer w of
                  Some h \<Rightarrow> (clearTimeout h w)\<lparr>runner_timer := None\<rparr>
                | None \<Rightarrow> w)
      in case deadline of
           None \<Rightarrow> w1
         | Some d \<Rightarrow>
             (let timeout = d - monotonicTime (hrtime w1)
              in if timeout \<le> 0
                 then finish (Some \<lparr>result = None, timedOut = Some True\<rparr>) None w1
                 else (case setTimeout timeout w1 of
                         (h, w2) \<Rightarrow> w2\<lparr>runner_timer := Some h\<rparr>)))"
| "finish success error w =
     (if runner_done w then w
      else (let w1 = setDeadline None w
            in case success of
                 Some s \<Rightarrow> w1\<lparr>runner_result := fulfill (runner_result w1) s\<rparr>
               | None \<Rightarrow> w1\<lparr>runner_result := reject (runner_result w1) error\<rparr>))"
  by pat_completeness auto
termination
  by (relation "measure (\<lambda>x. case x of
        Inl (d, w) \<Rightarrow> (if d = None then 0 else 2)
      | Inr (s, e, w) \<Rightarrow> 1)") auto

text \<open>
  The constructor, in a process whose clock reads \<open>hr\<close> and whose next timer handle is
  \<open>n\<close>: the promise is created pending, the two callbacks are registered on the inner
  promise (they run later, as events), and \<^verbatim>\<open>setDeadline(deadline)\<close> is called.
\<close>

definition newDeadlineRunner :: "int option \<Rightarrow> hrtime \<Rightarrow> nat \<Rightarrow> ('a, 'e) DeadlineRunner" where
  "newDeadlineRunner deadline hr n =
     setDeadline deadline
       \<lparr>hrtime = hr, timers = [], nextTimer = n,
        runner_timer = None, runner_done = False, runner_result = Pending\<rparr>"

text \<open>
  \<^verbatim>\<open>raceAgainstDeadline\<close> builds a runner and returns its \<^verbatim>\<open>result\<close>; the promise of the
  \<^verbatim>\<open>async\<close> function settles as that one does. Nothing else holds the runner.
\<close>

definition raceAgainstDeadline :: "int option \<Rightarrow> hrtime \<Rightarrow> nat \<Rightarrow> ('a, 'e) DeadlineRunner" where
  "raceAgainstDeadline deadline hr n = newDeadlineRunner deadline hr n"

text \<open>
  What happens to a runner after its construction, one event at a time: the clock moves;
  the inner promise fulfills and the callback given to \<^verbatim>\<open>then\<close> runs; it rejects and the
  callback given to \<^verbatim>\<open>catch\<close> runs; Node runs the callback of an armed timer, which
  leaves the table as it does; a caller invokes \<^verbatim>\<open>setDeadline\<close>.
\<close>

datatype ('a, 'e) runner_event =
    Tick hrtime
  | PromiseFulfilled 'a
  | PromiseRejected 'e
  | TimerFired nat
  | SetDeadline "int option"

fun step :: "('a, 'e) runner_event \<Rightarrow> ('a, 'e) DeadlineRunner \<Rightarrow> ('a, 'e) DeadlineRunner" where
  "step (Tick hr) w = w\<lparr>hrtime := hr\<rparr>"
| "step (PromiseFulfilled v) w = finish (Some \<lparr>result = Some v, timedOut = None\<rparr>) None w"
| "step (PromiseRejected e) w = finish None (Some e) w"
| "step (TimerFired h) w =
     (if h \<in> fst ` set (timers w)
      then finish (Some \<lparr>result = None, timedOut = Some True\<rparr>) None
             (w\<lparr>timers := filter (\<lambda>t. fst t \<noteq> h) (timers w)\<rparr>)
      else w)"
| "step (SetDeadline d) w = setDeadline d w"

fun run :: "('a, 'e) runner_event list \<Rightarrow> ('a, 'e) DeadlineRunner \<Rightarrow> ('a, 'e) DeadlineRunner" where
  "run [] w = w"
| "run (ev # evs) w = run evs (step ev w)"


fun is_settle :: "('a, 'e) runner_event \<Rightarrow> bool" where
  "is_settle (PromiseFulfilled v) = True"
| "is_settle (PromiseRejected e) = True"
| "is_settle ev = False"

fun is_setDeadline :: "('a, 'e) runner_event \<Rightarrow> bool" where
  "is_setDeadline (SetDeadline d) = True"
| "is_setDeadline ev = False"

section \<open>src/util.ts: serializeError\<close>

text \<open>
  A thrown value is either an instance of \<^verbatim>\<open>Error\<close>, with the string \<^verbatim>\<open>message\<close> and
  the optional string \<^verbatim>\<open>stack\<close> of TypeScript's \<^verbatim>\<open>interface Error\<close>, or any other
  value. \<^verbatim>\<open>TestError\<close> is the type \<^verbatim>\<open>{message, stack?} | {value}\<close>; a property that an
  object does not carry, or carries as \<^verbatim>\<open>undefined\<close>, is \<open>None\<close>. \<^verbatim>\<open>util.inspect\<close>
  belongs to Node and is a parameter.
\<close>

datatype 'v thrown = Error (message: string) (stack: "string option") | NonError 'v

record TestError =
  te_message :: "string option"
  te_stack :: "string option"
  te_value :: "string option"

definition serializeError :: "('v thrown \<Rightarrow> string) \<Rightarrow> 'v thrown \<Rightarrow> TestError" where
  "serializeError inspect error =
     (case error of
        Error m s \<Rightarrow> \<lparr>te_message = Some m, te_stack = s, te_value = None\<rparr>
      | NonError v \<Rightarrow> \<lparr>te_message = None, te_stack = None, te_value = Some (inspect error)\<rparr>)"

section \<open>src/util.ts: createMatcher\<close>

text \<open>
  A \<^verbatim>\<open>RegExp\<close> object has an identity, a source and its flags, of which \<^verbatim>\<open>g\<close> and
  \<^verbatim>\<open>y\<close> matter here, and the mutable property \<^verbatim>\<open>lastIndex\<close>. The caller of
  \<^verbatim>\<open>createMatcher\<close> keeps its references to the objects it passes, so the
  \<^verbatim>\<open>lastIndex\<close> properties live in a store, by identity.
\<close>

record RegExp =
  re_ref :: nat
  source :: string
  global :: bool
  sticky :: bool

type_synonym lastIndex_store = "nat \<Rightarrow> nat"

text \<open>
  \<^verbatim>\<open>re.test(value)\<close>, as ECMAScript's RegExpBuiltinExec runs it. The matching itself is the
  parameter \<open>exec\<close>: the end of the first match of the expression in the string that
  starts at the given index or later (at that index only, for a sticky expression). An
  expression with \<^verbatim>\<open>g\<close> or \<^verbatim>\<open>y\<close> starts at its \<^verbatim>\<open>lastIndex\<close> and stores the end
  of the match there, or 0 when there is none; any other starts at 0 and leaves the
  property alone.
\<close>

definition regexp_test ::
  "(RegExp \<Rightarrow> string \<Rightarrow> nat \<Rightarrow> nat option) \<Rightarrow> RegExp \<Rightarrow> string \<Rightarrow> lastIndex_store
     \<Rightarrow> bool \<times> lastIndex_store" where
  "regexp_test exec re v h =
     (let lastIndex = (if global re \<or> sticky re then h (re_ref re) else 0)
      in if lastIndex > length v
         then (False, if global re \<or> sticky re then h(re_ref re := 0) else h)
         else (case exec re v lastIndex of
                 None \<Rightarrow> (False, if global re \<or> sticky re then h(re_ref re := 0) else h)
               | Some e \<Rightarrow> (True, if global re \<or> sticky re then h(re_ref re := e) else h)))"

text \<open>The argument of \<^verbatim>\<open>createMatcher\<close>: \<^verbatim>\<open>string | RegExp | (string | RegExp)[]\<close>.\<close>

datatype pattern = Str string | Re RegExp

datatype patterns = Single pattern | Array "pattern list"

text \<open>The first loop: it fills \<^verbatim>\<open>reList\<close> and \<^verbatim>\<open>filePatterns\<close>, in the order of the patterns.\<close>

fun collect :: "pattern list \<Rightarrow> RegExp list \<times> string list \<Rightarrow> RegExp list \<times> string list" where
  "collect [] (reList, filePatterns) = (reList, filePatterns)"
| "collect (Re re # ps) (reList, filePatterns) = collect ps (reList @ [re], filePatterns)"
| "collect (Str p # ps) (reList, filePatterns) =
     (if CHR ''/'' \<notin> set p \<and> CHR 0x5C \<notin> set p
      then collect ps (reList, filePatterns @ [''**/'' @ p])
      else collect ps (reList, filePatterns @ [p]))"

text \<open>The two loops of the returned function; \<^verbatim>\<open>minimatch\<close> is a parameter.\<close>

fun test_reList ::
  "(RegExp \<Rightarrow> string \<Rightarrow> nat \<Rightarrow> nat option) \<Rightarrow> RegExp list \<Rightarrow> string \<Rightarrow> lastIndex_store
     \<Rightarrow> bool \<times> lastIndex_store" where
  "test_reList exec [] v h = (False, h)"
| "test_reList exec (re # res) v h =
     (case regexp_test exec re v (h(re_ref re := 0)) of
        (True, h') \<Rightarrow> (True, h')
      | (False, h') \<Rightarrow> test_reList exec res v h')"

fun test_filePatterns :: "(string \<Rightarrow> string \<Rightarrow> bool) \<Rightarrow> string list \<Rightarrow> string \<Rightarrow> bool" where
  "test_filePatterns minimatch [] v = False"
| "test_filePatterns minimatch (p # ps) v =
     (if minimatch v p then True else test_filePatterns minimatch ps v)"

definition createMatcher ::
  "(string \<Rightarrow> string \<Rightarrow> bool) \<Rightarrow> (RegExp \<Rightarrow> string \<Rightarrow> nat \<Rightarrow> nat option) \<Rightarrow> patterns
     \<Rightarrow> string \<Rightarrow> lastIndex_store \<Rightarrow> bool \<times> lastIndex_store" where
  "createMatcher minimatch exec ps =
     (case collect (case ps of Array xs \<Rightarrow> xs | Single x \<Rightarrow> [x]) ([], []) of
        (reList, filePatterns) \<Rightarrow>
          (\<lambda>v h. case test_reList exec reList v h of
                   (True, h') \<Rightarrow> (True, h')
                 | (False, h') \<Rightarrow> (test_filePatterns minimatch filePatterns v, h')))"

text \<open>
  A matching function for closed examples: the expression is its source, read literally,
  and matches where the source occurs in the string.
\<close>

fun literal_at :: "string \<Rightarrow> string \<Rightarrow> nat \<Rightarrow> nat \<Rightarrow> nat option" where
  "literal_at src v i 0 = (if take (length src) (drop i v) = src then Some (i + length src) else None)"
| "literal_at src v i (Suc k) =
     (if take (length src) (drop i v) = src then Some (i + length src)
      else literal_at src v (Suc i) k)"

definition literal_exec :: "RegExp \<Rightarrow> string \<Rightarrow> nat \<Rightarrow> nat option" where
  "literal_exec re v i =
     (if sticky re then literal_at (source re) v i 0 else literal_at (source re) v i (length v - i))"

section \<open>Invariants of the runner\<close>

text \<open>
  Between two events, the table holds the timer whose handle is in \<^verbatim>\<open>_timer\<close> and no
  other, and \<^verbatim>\<open>_done\<close> is false.
\<close>

definition timer_inv :: "('a, 'e) DeadlineRunner \<Rightarrow> bool" where
  "timer_inv w =
     (\<not> runner_done w \<and>
      (case runner_timer w of
         None \<Rightarrow> timers w = []
       | Some h \<Rightarrow> (\<exists>d. timers w = [(h, d)]) \<and> h < nextTimer w))"

text \<open>The values the result can have while the inner promise has not settled.\<close>

definition running_result :: "('a outcome, 'e option) promise \<Rightarrow> bool" where
  "running_result p = (p = Pending \<or> p = Fulfilled \<lparr>result = None, timedOut = Some True\<rparr>)"

section \<open>The dispatcher\<close>

text \<open>
  Modelled from the spec: the dispatcher (the scheduling of section 4.5, with the worker's
  policy of section 4.4, step 7), whose source file is not among the sources; only its
  tests are. A test carries its \<^verbatim>\<open>fixtureHash\<close> and \<^verbatim>\<open>retries\<close>; a \<^verbatim>\<open>TestResult\<close> carries
  \<^verbatim>\<open>attempt\<close>, \<^verbatim>\<open>workerIndex\<close> and \<^verbatim>\<open>status\<close>, and is kept with the test it is appended to.
\<close>

datatype status = Passed | Failed | TimedOut | Skipped

record 'h test =
  testId :: nat
  fixtureHash :: 'h
  retries :: nat

record 'h TestResult =
  r_test :: "'h test"
  attempt :: nat
  workerIndex :: nat
  status :: status

text \<open>
  Modelled from the spec: a worker, with its index, the hash it is bound to and the tests of
  the hash-run it is running that have not ended; the first of them is the one that was
  sent to it.
\<close>

record 'h worker =
  w_index :: nat
  w_hash :: 'h
  w_run :: "'h test list"

text \<open>
  Modelled from the spec: the state of the dispatcher. \<^verbatim>\<open>workers\<close> is the bound \<open>W\<close> of the
  pool; \<^verbatim>\<open>queue\<close> is the FIFO queue of pending tests; \<^verbatim>\<open>free\<close> holds the free workers,
  the least recently used first; a new worker takes the next index, as the scenarios have
  it (three projects give the indices 0, 1, 2; after a failure the next test has a new
  index).
\<close>

record 'h dispatcher =
  workers :: nat
  queue :: "'h test list"
  busy :: "'h worker list"
  free :: "'h worker list"
  nextWorkerIndex :: nat
  results :: "'h TestResult list"

text \<open>
  Modelled from the spec: the start of a run, with the runnable tests in their order in the
  queue and no worker; a status that fails a test; the spawning of a worker for a hash-run.
\<close>

definition initial :: "nat \<Rightarrow> 'h test list \<Rightarrow> 'h dispatcher" where
  "initial W tests =
     \<lparr>workers = W, queue = tests, busy = [], free = [], nextWorkerIndex = 0, results = []\<rparr>"

definition is_failure :: "status \<Rightarrow> bool" where
  "is_failure st = (st = Failed \<or> st = TimedOut)"

definition spawn :: "'h \<Rightarrow> 'h test list \<Rightarrow> 'h dispatcher \<Rightarrow> 'h dispatcher" where
  "spawn H r s =
     s\<lparr>busy := busy s @ [\<lparr>w_index = nextWorkerIndex s, w_hash = H, w_run = r\<rparr>],
       nextWorkerIndex := Suc (nextWorkerIndex s)\<rparr>"

text \<open>
  Modelled from the spec: the assignment of the first hash-run of the queue, the maximal
  run of tests at its head with one \<^verbatim>\<open>fixtureHash\<close>. A free worker bound to the hash is
  preferred; else a worker is spawned if the pool has capacity; else the least recently
  used free worker, whose hash is another, is terminated and a fresh one is spawned. With
  every worker busy the run waits.
\<close>

definition assign :: "'h dispatcher \<Rightarrow> 'h dispatcher" where
  "assign s =
     (case queue s of
        [] \<Rightarrow> s
      | t # ts \<Rightarrow>
          (let H = fixtureHash t;
               r = takeWhile (\<lambda>x. fixtureHash x = H) (queue s);
               rest = dropWhile (\<lambda>x. fixtureHash x = H) (queue s)
           in case find (\<lambda>w. w_hash w = H) (free s) of
                Some w \<Rightarrow>
                  s\<lparr>queue := rest,
                    free := filter (\<lambda>x. w_index x \<noteq> w_index w) (free s),
                    busy := busy s @ [w\<lparr>w_run := r\<rparr>]\<rparr>
              | None \<Rightarrow>
                  if length (busy s) + length (free s) < workers s
                  then spawn H r (s\<lparr>queue := rest\<rparr>)
                  else (case free s of
                          [] \<Rightarrow> s
                        | lru # others \<Rightarrow> spawn H r (s\<lparr>queue := rest, free := others\<rparr>))))"

text \<open>
  Modelled from the spec: \<^verbatim>\<open>testEnd\<close> from the worker with index \<open>i\<close>, for the test that
  was sent to it. The result is appended, its \<^verbatim>\<open>attempt\<close> the number of the results the
  test had. After \<^verbatim>\<open>failed\<close> or \<^verbatim>\<open>timedOut\<close> the worker is discarded, the test goes back to
  the head of the queue if it has retries left, and the rest of the hash-run follows it
  there. Otherwise the next test of the run is sent to the same worker, and after the
  last one the worker is free, the most recently used.
\<close>

definition testEnd :: "nat \<Rightarrow> status \<Rightarrow> 'h dispatcher \<Rightarrow> 'h dispatcher" where
  "testEnd i st s =
     (case find (\<lambda>w. w_index w = i) (busy s) of
        None \<Rightarrow> s
      | Some w \<Rightarrow>
          (case w_run w of
             [] \<Rightarrow> s
           | t # rest \<Rightarrow>
               (let k = length (filter (\<lambda>r. r_test r = t) (results s));
                    s1 = s\<lparr>results := results s @
                            [\<lparr>r_test = t, attempt = k, workerIndex = i, status = st\<rparr>]\<rparr>;
                    others = filter (\<lambda>x. w_index x \<noteq> i) (busy s)
                in if is_failure st
                   then s1\<lparr>busy := others,
                           queue := (if k < retries t then [t] else []) @ rest @ queue s\<rparr>
                   else if rest = []
                   then s1\<lparr>busy := others, free := free s @ [w\<lparr>w_run := []\<rparr>]\<rparr>
                   else s1\<lparr>busy := map (\<lambda>x. if w_index x = i then x\<lparr>w_run := rest\<rparr> else x)
                                      (busy s)\<rparr>)))"

text \<open>
  Modelled from the spec: the dispatcher is an event loop; between two events it runs
  alone. An event is the assignment of the next hash-run or the \<^verbatim>\<open>testEnd\<close> of a worker,
  with the status the test ended with; an event that cannot happen in a state (no pending
  test, no such worker) leaves it as it is. A list of events is one schedule of a run.
\<close>

datatype event = Assign | TestEnd nat status

fun dispatch_step :: "event \<Rightarrow> 'h dispatcher \<Rightarrow> 'h dispatcher" where
  "dispatch_step Assign s = assign s"
| "dispatch_step (TestEnd i st) s = testEnd i st s"

fun dispatch :: "event list \<Rightarrow> 'h dispatcher \<Rightarrow> 'h dispatcher" where
  "dispatch [] s = s"
| "dispatch (ev # evs) s = dispatch evs (dispatch_step ev s)"

text \<open>
  Modelled from the spec: the run is over when no test is pending and no worker is
  running one.
\<close>

definition finished :: "'h dispatcher \<Rightarrow> bool" where
  "finished s = (queue s = [] \<and> busy s = [])"

text \<open>
  Modelled from the spec: the report. A test has passed when its first attempt passed; the
  exit code is 0 unless the last attempt of some test failed or timed out, and 1 then
  (section 6.5; the codes of an interruption and of a configuration error are left out).
\<close>

definition passed :: "'h TestResult list \<Rightarrow> nat" where
  "passed rs = length (filter (\<lambda>r. status r = Passed \<and> attempt r = 0) rs)"

definition exitCode :: "'h TestResult list \<Rightarrow> nat" where
  "exitCode rs =
     (if list_ex (\<lambda>r. is_failure (status r) \<and>
                       \<not> list_ex (\<lambda>x. r_test x = r_test r \<and> attempt r < attempt x) rs) rs
      then 1 else 0)"

section \<open>Invariants of the dispatcher\<close>

text \<open>
  The tests that are pending: in the queue, or in the hash-run of a busy worker.
\<close>

definition pending :: "'h dispatcher \<Rightarrow> 'h test set" where
  "pending s = set (queue s) \<union> (\<Union>w\<in>set (busy s). set (w_run w))"

text \<open>
  Worker indices are given once: the workers of the pool have distinct indices, all below
  the next index, as have the results.
\<close>

definition pool_inv :: "'h dispatcher \<Rightarrow> bool" where
  "pool_inv s =
     (distinct (map w_index (busy s @ free s)) \<and>
      (\<forall>w\<in>set (busy s @ free s). w_index w < nextWorkerIndex s) \<and>
      (\<forall>r\<in>set (results s). workerIndex r < nextWorkerIndex s))"

text \<open>
  A worker runs tests of the hash it is bound to, and the results that carry its index are
  of that hash.
\<close>

definition hash_inv :: "'h dispatcher \<Rightarrow> bool" where
  "hash_inv s =
     ((\<forall>w\<in>set (busy s). \<forall>t\<in>set (w_run w). fixtureHash t = w_hash w) \<and>
      (\<forall>r\<in>set (results s). \<forall>w\<in>set (busy s @ free s).
          workerIndex r = w_index w \<longrightarrow> fixtureHash (r_test r) = w_hash w) \<and>
      (\<forall>r1\<in>set (results s). \<forall>r2\<in>set (results s).
          workerIndex r1 = workerIndex r2 \<longrightarrow> fixtureHash (r_test r1) = fixtureHash (r_test r2)))"

text \<open>A pending test is in one place only.\<close>

definition runs_inv :: "'h dispatcher \<Rightarrow> bool" where
  "runs_inv s =
     (distinct (queue s) \<and>
      (\<forall>w\<in>set (busy s). distinct (w_run w) \<and> set (w_run w) \<inter> set (queue s) = {}) \<and>
      (\<forall>w\<in>set (busy s). \<forall>w'\<in>set (busy s). w \<noteq> w' \<longrightarrow> set (w_run w) \<inter> set (w_run w') = {}))"

text \<open>A pending test that has results has failed in each of them.\<close>

definition redo_inv :: "'h dispatcher \<Rightarrow> bool" where
  "redo_inv s = (\<forall>r\<in>set (results s). r_test r \<in> pending s \<longrightarrow> is_failure (status r))"

text \<open>Every test is pending or has a result, and nothing else is.\<close>

definition book_inv :: "'h test list \<Rightarrow> 'h dispatcher \<Rightarrow> bool" where
  "book_inv tests s = (pending s \<union> r_test ` set (results s) = set tests)"

text \<open>
  A test that has a result has one with attempt 0, and a result with a later attempt follows
  a failure of its test.
\<close>

definition attempt_inv :: "'h dispatcher \<Rightarrow> bool" where
  "attempt_inv s =
     (\<forall>r\<in>set (results s).
        (\<exists>r0\<in>set (results s). r_test r0 = r_test r \<and> attempt r0 = 0) \<and>
        (attempt r \<noteq> 0 \<longrightarrow> (\<exists>r'\<in>set (results s). r_test r' = r_test r \<and> is_failure (status r'))))"

text \<open>As long as no result is a failure, no test has two results.\<close>

definition once_inv :: "'h dispatcher \<Rightarrow> bool" where
  "once_inv s =
     ((\<forall>r\<in>set (results s). \<not> is_failure (status r)) \<longrightarrow> distinct (map r_test (results s)))"

text \<open>
  Every index given so far is the index of a busy worker or the index of a result.
\<close>

definition cover_inv :: "'h dispatcher \<Rightarrow> bool" where
  "cover_inv s =
     (\<forall>j<nextWorkerIndex s. j \<in> w_index ` set (busy s) \<or> j \<in> workerIndex ` set (results s))"

text \<open>
  All of these together; they hold in every state a schedule reaches from the initial one.
\<close>

definition sched_inv :: "'h test list \<Rightarrow> 'h dispatcher \<Rightarrow> bool" where
  "sched_inv tests s =
     (pool_inv s \<and> hash_inv s \<and> runs_inv s \<and> redo_inv s \<and> book_inv tests s \<and>
      attempt_inv s \<and> once_inv s \<and> cover_inv s)"

text \<open>Two elements that follow each other in a list.\<close>

definition adjacent :: "'a \<Rightarrow> 'a \<Rightarrow> 'a list \<Rightarrow> bool" where
  "adjacent a b xs = (\<exists>pre post. xs = pre @ a # b # post)"


text \<open>A test without retries, for closed examples.\<close>

definition plain_test :: "nat \<Rightarrow> 'h \<Rightarrow> 'h test" where
  "plain_test n h = \<lparr>testId = n, fixtureHash = h, retries = 0\<rparr>"

section \<open>Properties of the monotonic clock\<close>

lemma toInt32_id: "- (2 ^ 31) \<le> x \<Longrightarrow> x < 2 ^ 31 \<Longrightarrow> toInt32 x = x"
  unfolding toInt32_def by (simp add: mod_pos_pos_trivial)

lemma monotonicTime_eq:
  assumes "snd a < 1000000000"
  shows "monotonicTime a = int (fst a) * 1000 + int (snd a) div 1000000"
proof -
  have "int (snd a) div 1000000 < 1000" using assms by linarith
  moreover have "0 \<le> int (snd a) div 1000000" by simp
  ultimately have "toInt32 (int (snd a) div 1000000) = int (snd a) div 1000000"
    by (intro toInt32_id) simp_all
  then show ?thesis by (simp add: monotonicTime_def case_prod_beta)
qed

text \<open>
  C9. For a clock reading whose nanosecond part is below \<open>10^9\<close>, \<^verbatim>\<open>monotonicTime\<close>
  returns a non-negative integer, equal to the seconds times 1000 plus the nanoseconds
  divided by \<open>10^6\<close> and truncated toward zero. A later reading of the clock gives a
  result that is not smaller. The result, taken in nanoseconds, is below the reading by
  less than one millisecond, and never above it.
\<close>

theorem monotonicTime_millis:
  assumes a: "snd a < 1000000000" and b: "snd b < 1000000000" and le: "hrtime_le a b"
  shows "0 \<le> monotonicTime a
       \<and> monotonicTime a = int (fst a) * 1000 + int (snd a) div 1000000
       \<and> monotonicTime a \<le> monotonicTime b
       \<and> 0 \<le> hrtime_ns a - monotonicTime a * 1000000
       \<and> hrtime_ns a - monotonicTime a * 1000000 < 1000000"
proof -
  have ea: "monotonicTime a = int (fst a) * 1000 + int (snd a) div 1000000"
    using a by (rule monotonicTime_eq)
  have eb: "monotonicTime b = int (fst b) * 1000 + int (snd b) div 1000000"
    using b by (rule monotonicTime_eq)
  have qa: "int (snd a) div 1000000 < 1000" "0 \<le> int (snd a) div 1000000" using a by linarith+
  have qb: "int (snd b) div 1000000 < 1000" "0 \<le> int (snd b) div 1000000" using b by linarith+
  have mono: "monotonicTime a \<le> monotonicTime b"
  proof (cases "fst a < fst b")
    case True
    then have "int (fst a) + 1 \<le> int (fst b)" by simp
    then show ?thesis using qa qb unfolding ea eb by linarith
  next
    case False
    then have "fst a = fst b" "snd a \<le> snd b" using le by (auto simp: hrtime_le_def)
    then have "int (snd a) div 1000000 \<le> int (snd b) div 1000000"
      by (intro zdiv_mono1) simp_all
    then show ?thesis using \<open>fst a = fst b\<close> unfolding ea eb by simp
  qed
  have err: "hrtime_ns a - monotonicTime a * 1000000 = int (snd a) mod 1000000"
    unfolding ea hrtime_ns_def by (simp add: algebra_simps minus_div_mult_eq_mod [symmetric])
  show ?thesis using ea mono qa err by simp
qed

theorem monotonicTime_millis_witness:
  "monotonicTime (12, 345678901) = 12345 \<and> monotonicTime (12, 345678901) \<le> monotonicTime (12, 999999999)
   \<and> hrtime_ns (12, 345678901) - monotonicTime (12, 345678901) * 1000000 = 678901"
  using monotonicTime_millis [of "(12, 345678901)" "(12, 999999999)"]
  by (simp add: hrtime_le_def hrtime_ns_def)

section \<open>Properties of serializeError\<close>

text \<open>
  C6. \<^verbatim>\<open>serializeError\<close> maps an \<^verbatim>\<open>Error\<close> instance to \<^verbatim>\<open>{message, stack}\<close> with the
  error's own message and stack, and every other value to \<^verbatim>\<open>{value}\<close> with what
  \<^verbatim>\<open>util.inspect\<close> returns for it. Every result has exactly one of the two properties
  \<^verbatim>\<open>message\<close> and \<^verbatim>\<open>value\<close>, and none has both.
\<close>

theorem serializeError_shapes:
  "serializeError inspect (Error m s) = \<lparr>te_message = Some m, te_stack = s, te_value = None\<rparr>
   \<and> serializeError inspect (NonError v) =
        \<lparr>te_message = None, te_stack = None, te_value = Some (inspect (NonError v))\<rparr>
   \<and> ((te_message (serializeError inspect x) \<noteq> None) \<noteq> (te_value (serializeError inspect x) \<noteq> None))
   \<and> \<not> (te_message (serializeError inspect x) \<noteq> None \<and> te_value (serializeError inspect x) \<noteq> None)"
  by (cases x) (simp_all add: serializeError_def)

section \<open>Properties of createMatcher\<close>

lemma test_reList_fst:
  "fst (test_reList exec res v h1) = fst (test_reList exec res v h2)"
proof (induction res arbitrary: h1 h2)
  case Nil
  show ?case by simp
next
  case (Cons re res)
  have "fst (regexp_test exec re v (h1(re_ref re := 0))) = fst (regexp_test exec re v (h2(re_ref re := 0)))"
    by (simp add: regexp_test_def Let_def split: option.split)
  then show ?case using Cons.IH
    by (auto split: prod.splits bool.splits)
qed

lemma createMatcher_fst:
  "fst (createMatcher minimatch exec ps v h1) = fst (createMatcher minimatch exec ps v h2)"
  using test_reList_fst [of exec _ v h1 h2]
  by (auto simp: createMatcher_def split: prod.splits bool.splits) (metis fst_conv)+

lemma collect_append: "collect (xs @ ys) acc = collect ys (collect xs acc)"
  by (induction xs acc rule: collect.induct) simp_all

lemma collect_prefixed:
  assumes "CHR ''/'' \<notin> set p" "CHR 0x5C \<notin> set p"
  shows "collect (Str p # ys) acc = collect (Str (''**/'' @ p) # ys) acc"
  using assms by (cases acc) simp

text \<open>
  The reset matters: the result of \<^verbatim>\<open>test\<close> on an expression with the flag \<^verbatim>\<open>g\<close>
  depends on its \<^verbatim>\<open>lastIndex\<close>.
\<close>

lemma regexp_test_reads_lastIndex:
  "fst (regexp_test literal_exec \<lparr>re_ref = 0, source = ''a'', global = True, sticky = False\<rparr> ''a'' (\<lambda>r. 0))
   \<noteq> fst (regexp_test literal_exec \<lparr>re_ref = 0, source = ''a'', global = True, sticky = False\<rparr> ''a'' (\<lambda>r. 1))"
  by (simp add: regexp_test_def literal_exec_def)

text \<open>
  C10. The boolean that the function returned by \<^verbatim>\<open>createMatcher\<close> gives for a string
  does not depend on the \<^verbatim>\<open>lastIndex\<close> properties it finds: it is the same from any
  two stores, and so the same in a second call that starts from the store the first call
  left. A string pattern with no \<^verbatim>\<open>/\<close> and no backslash is matched as the pattern with
  \<^verbatim>\<open>**/\<close> put before it: at any place of the array, exchanging the two gives the same
  function, and alone it is \<^verbatim>\<open>minimatch\<close> of the value and the prefixed pattern. What
  \<^verbatim>\<open>**/\<close> matches is the meaning that \<^verbatim>\<open>minimatch\<close>, a parameter here, gives it.
\<close>

theorem createMatcher_deterministic:
  "fst (createMatcher minimatch exec ps v h1) = fst (createMatcher minimatch exec ps v h2)
   \<and> fst (createMatcher minimatch exec ps v (snd (createMatcher minimatch exec ps v h)))
       = fst (createMatcher minimatch exec ps v h)
   \<and> (CHR ''/'' \<notin> set p \<and> CHR 0x5C \<notin> set p \<longrightarrow>
        createMatcher minimatch exec (Array (xs @ Str p # ys))
          = createMatcher minimatch exec (Array (xs @ Str (''**/'' @ p) # ys))
        \<and> createMatcher minimatch exec (Single (Str p))
          = createMatcher minimatch exec (Single (Str (''**/'' @ p)))
        \<and> createMatcher minimatch exec (Single (Str p)) v h = (minimatch v (''**/'' @ p), h))"
proof (intro conjI impI)
  show "fst (createMatcher minimatch exec ps v h1) = fst (createMatcher minimatch exec ps v h2)"
    by (rule createMatcher_fst)
  show "fst (createMatcher minimatch exec ps v (snd (createMatcher minimatch exec ps v h)))
       = fst (createMatcher minimatch exec ps v h)"
    by (rule createMatcher_fst)
next
  assume a: "CHR ''/'' \<notin> set p \<and> CHR 0x5C \<notin> set p"
  then have e: "\<And>acc. collect (Str p # ys) acc = collect (Str (''**/'' @ p) # ys) acc"
    by (intro collect_prefixed) simp_all
  show "createMatcher minimatch exec (Array (xs @ Str p # ys))
          = createMatcher minimatch exec (Array (xs @ Str (''**/'' @ p) # ys))"
    unfolding createMatcher_def by (simp only: patterns.case collect_append e)
  show "createMatcher minimatch exec (Single (Str p))
          = createMatcher minimatch exec (Single (Str (''**/'' @ p)))"
    using a by (simp add: createMatcher_def)
  show "createMatcher minimatch exec (Single (Str p)) v h = (minimatch v (''**/'' @ p), h)"
    using a by (simp add: createMatcher_def)
qed

theorem createMatcher_deterministic_witness:
  "fst (createMatcher (\<lambda>v p. p = ''**/a.js'' \<and> v = ''x/y/a.js'') literal_exec
          (Array [Re \<lparr>re_ref = 0, source = ''b'', global = True, sticky = False\<rparr>, Str ''a.js''])
          ''x/y/a.js'' (\<lambda>r. 0))
   \<and> fst (createMatcher (\<lambda>v p. p = ''**/a.js'' \<and> v = ''x/y/a.js'') literal_exec
          (Array [Re \<lparr>re_ref = 0, source = ''b'', global = True, sticky = False\<rparr>, Str ''a.js''])
          ''x/y/a.js'' (\<lambda>r. 7))
   \<and> fst (createMatcher (\<lambda>v p. p = ''**/a.js'' \<and> v = ''x/y/a.js'') literal_exec
          (Array ([Re \<lparr>re_ref = 0, source = ''b'', global = True, sticky = False\<rparr>] @ Str (''**/'' @ ''a.js'') # []))
          ''x/y/a.js'' (\<lambda>r. 7))"
proof -
  let ?mm = "\<lambda>v p. p = ''**/a.js'' \<and> v = ''x/y/a.js''"
  let ?re = "\<lparr>re_ref = 0, source = ''b'', global = True, sticky = False\<rparr>"
  have a: "fst (createMatcher ?mm literal_exec (Array [Re ?re, Str ''a.js'']) ''x/y/a.js'' (\<lambda>r. 0))"
    by (simp add: createMatcher_def regexp_test_def literal_exec_def)
  have c: "CHR ''/'' \<notin> set ''a.js'' \<and> CHR 0x5C \<notin> set ''a.js''" by simp
  note t = createMatcher_deterministic [of ?mm literal_exec "Array [Re ?re, Str ''a.js'']" "''x/y/a.js''"
      "\<lambda>r. 7" "\<lambda>r. 0" "\<lambda>r. 0" "''a.js''" "[Re ?re]" "[]"]
  from t a have b: "fst (createMatcher ?mm literal_exec (Array [Re ?re, Str ''a.js'']) ''x/y/a.js'' (\<lambda>r. 7))"
    by (simp only:)
  from t c have "createMatcher ?mm literal_exec (Array ([Re ?re] @ Str ''a.js'' # []))
      = createMatcher ?mm literal_exec (Array ([Re ?re] @ Str (''**/'' @ ''a.js'') # []))"
    by blast
  then show ?thesis using a b by (simp only: append_Cons append_Nil simp_thms)
qed

section \<open>Properties of the DeadlineRunner\<close>

lemma setDeadline_None:
  "setDeadline None w =
     (case runner_timer w of Some h \<Rightarrow> (clearTimeout h w)\<lparr>runner_timer := None\<rparr> | None \<Rightarrow> w)"
  by (simp split: option.split)

lemma finish_unfold:
  "finish success error w =
     (if runner_done w then w
      else (case success of
              Some s \<Rightarrow> (setDeadline None w)\<lparr>runner_result := fulfill (runner_result (setDeadline None w)) s\<rparr>
            | None \<Rightarrow> (setDeadline None w)\<lparr>runner_result := reject (runner_result (setDeadline None w)) error\<rparr>))"
  by (simp add: Let_def del: setDeadline.simps)

lemma setDeadline_Some:
  "setDeadline (Some d) w =
     (if d - monotonicTime (hrtime w) \<le> 0
      then finish (Some \<lparr>result = None, timedOut = Some True\<rparr>) None (setDeadline None w)
      else (case setTimeout (d - monotonicTime (hrtime w)) (setDeadline None w) of
              (h, w2) \<Rightarrow> w2\<lparr>runner_timer := Some h\<rparr>))"
  by (simp add: Let_def clearTimeout_def split: option.split del: finish.simps)

declare setDeadline.simps [simp del] finish.simps [simp del]

lemma clear_fields [simp]:
  "runner_result (setDeadline None w) = runner_result w"
  "runner_done (setDeadline None w) = runner_done w"
  "runner_timer (setDeadline None w) = None"
  "hrtime (setDeadline None w) = hrtime w"
  "nextTimer (setDeadline None w) = nextTimer w"
  by (simp_all add: setDeadline_None clearTimeout_def split: option.split)

lemma clear_timers:
  "timer_inv w \<Longrightarrow> timers (setDeadline None w) = []"
  by (auto simp: timer_inv_def setDeadline_None clearTimeout_def split: option.splits)

lemma fulfill_settled [simp]: "p \<noteq> Pending \<Longrightarrow> fulfill p v = p"
  by (cases p) (simp_all add: fulfill_def)

lemma reject_settled [simp]: "p \<noteq> Pending \<Longrightarrow> reject p e = p"
  by (cases p) (simp_all add: reject_def)

lemma fulfill_Pending [simp]: "fulfill Pending v = Fulfilled v"
  by (simp add: fulfill_def)

lemma reject_Pending [simp]: "reject Pending e = Rejected e"
  by (simp add: reject_def)

lemma finish_settled:
  "runner_result w \<noteq> Pending \<Longrightarrow> runner_result (finish s e w) = runner_result w"
  by (simp add: finish_unfold split: option.split)

lemma setDeadline_settled:
  "runner_result w \<noteq> Pending \<Longrightarrow> runner_result (setDeadline d w) = runner_result w"
  by (cases d) (simp_all add: setDeadline_Some finish_settled setTimeout_def)

lemma step_settled:
  "runner_result w \<noteq> Pending \<Longrightarrow> runner_result (step ev w) = runner_result w"
  by (cases ev) (simp_all add: finish_settled setDeadline_settled)

lemma run_settled:
  "runner_result w \<noteq> Pending \<Longrightarrow> runner_result (run evs w) = runner_result w"
  by (induction evs arbitrary: w) (simp_all add: step_settled)

lemma run_append: "run (xs @ ys) w = run ys (run xs w)"
  by (induction xs arbitrary: w) simp_all

lemma finish_inv:
  assumes "\<not> runner_done w" "timers (setDeadline None w) = []"
  shows "timer_inv (finish s e w)"
  using assms by (simp add: finish_unfold timer_inv_def split: option.split)

lemma finish_fields:
  assumes "\<not> runner_done w"
  shows "runner_timer (finish s e w) = None" "timers (finish s e w) = timers (setDeadline None w)"
    "nextTimer (finish s e w) = nextTimer w" "hrtime (finish s e w) = hrtime w"
    "runner_result (finish (Some x) e w) = fulfill (runner_result w) x"
    "runner_result (finish None e w) = reject (runner_result w) e"
  using assms by (simp_all add: finish_unfold split: option.split)

lemma setDeadline_inv: "timer_inv w \<Longrightarrow> timer_inv (setDeadline d w)"
proof (cases d)
  case None
  assume "timer_inv w"
  then show ?thesis using None clear_timers [of w] by (simp add: timer_inv_def)
next
  case (Some dl)
  assume i: "timer_inv w"
  then have c: "timers (setDeadline None w) = []" by (rule clear_timers)
  have nd: "\<not> runner_done (setDeadline None w)" using i by (simp add: timer_inv_def)
  have c2: "timers (setDeadline None (setDeadline None w)) = []"
    using c by (simp add: setDeadline_None [of "setDeadline None w"])
  show ?thesis
  proof (cases "dl - monotonicTime (hrtime w) \<le> 0")
    case True
    then show ?thesis using Some finish_inv [OF nd c2] by (simp add: setDeadline_Some)
  next
    case False
    then show ?thesis using Some c nd
      by (simp add: setDeadline_Some setTimeout_def timer_inv_def)
  qed
qed

lemma step_inv: "timer_inv w \<Longrightarrow> timer_inv (step ev w)"
proof (cases ev)
  case (Tick hr)
  assume "timer_inv w" then show ?thesis using Tick by (simp add: timer_inv_def split: option.splits)
next
  case (PromiseFulfilled v)
  assume i: "timer_inv w"
  then show ?thesis using PromiseFulfilled finish_inv [of w] clear_timers [of w]
    by (simp add: timer_inv_def)
next
  case (PromiseRejected e)
  assume i: "timer_inv w"
  then show ?thesis using PromiseRejected finish_inv [of w] clear_timers [of w]
    by (simp add: timer_inv_def)
next
  case (TimerFired h)
  assume i: "timer_inv w"
  show ?thesis
  proof (cases "h \<in> fst ` set (timers w)")
    case False then show ?thesis using TimerFired i by simp
  next
    case True
    let ?w = "w\<lparr>timers := filter (\<lambda>t. fst t \<noteq> h) (timers w)\<rparr>"
    have "\<not> runner_done ?w" using i by (simp add: timer_inv_def)
    moreover have "timers (setDeadline None ?w) = []"
      using i True by (auto simp: timer_inv_def setDeadline_None clearTimeout_def split: option.splits)
    ultimately have "timer_inv (finish (Some \<lparr>result = None, timedOut = Some True\<rparr>) None ?w)"
      by (rule finish_inv)
    then show ?thesis using TimerFired True by simp
  qed
next
  case (SetDeadline d)
  assume "timer_inv w" then show ?thesis using SetDeadline by (simp add: setDeadline_inv)
qed

lemma run_inv: "timer_inv w \<Longrightarrow> timer_inv (run evs w)"
  by (induction evs arbitrary: w) (simp_all add: step_inv)

lemma new_inv: "timer_inv (newDeadlineRunner d hr n)"
  unfolding newDeadlineRunner_def by (rule setDeadline_inv) (simp add: timer_inv_def)


lemma new_fields:
  "runner_done (newDeadlineRunner d hr n :: ('a, 'e) DeadlineRunner) = False"
  "hrtime (newDeadlineRunner d hr n :: ('a, 'e) DeadlineRunner) = hr"
  by (cases d; simp add: newDeadlineRunner_def setDeadline_None setDeadline_Some
        finish_unfold setTimeout_def)+




text \<open>Without a timer in the table, only a settlement of the inner promise or a call of
  setDeadline changes anything but the clock.\<close>

lemma step_idle:
  assumes "timers w = []" "runner_timer w = None" "\<not> is_settle ev" "\<not> is_setDeadline ev"
  shows "timers (step ev w) = [] \<and> runner_timer (step ev w) = None \<and>
         runner_result (step ev w) = runner_result w"
  using assms by (cases ev) simp_all

lemma run_idle:
  assumes "timers w = []" "runner_timer w = None"
    "list_all (\<lambda>ev. \<not> is_settle ev \<and> \<not> is_setDeadline ev) evs"
  shows "timers (run evs w) = [] \<and> runner_timer (run evs w) = None \<and>
         runner_result (run evs w) = runner_result w"
  using assms
proof (induction evs arbitrary: w)
  case Nil
  then show ?case by simp
next
  case (Cons ev evs)
  from Cons.prems have s: "timers (step ev w) = [] \<and> runner_timer (step ev w) = None \<and>
         runner_result (step ev w) = runner_result w"
    by (intro step_idle) simp_all
  from Cons.prems have "list_all (\<lambda>ev. \<not> is_settle ev \<and> \<not> is_setDeadline ev) evs" by simp
  with s Cons.IH [of "step ev w"] show ?case by simp
qed


lemma reject_pending:
  assumes "timer_inv w" "runner_result w = Pending"
  shows "runner_result (step (PromiseRejected e) w) = Rejected (Some e)"
    "timers (step (PromiseRejected e) w) = []"
    "runner_timer (step (PromiseRejected e) w) = None"
  using assms clear_timers [of w] by (simp_all add: finish_unfold timer_inv_def)


lemmas runner_eval =
  newDeadlineRunner_def raceAgainstDeadline_def setDeadline_None setDeadline_Some finish_unfold
  setTimeout_def clearTimeout_def monotonicTime_def toInt32_def

lemma finish_timeout_running:
  "\<not> runner_done w \<Longrightarrow> running_result (runner_result w) \<Longrightarrow>
   runner_result (finish (Some \<lparr>result = None, timedOut = Some True\<rparr>) e w)
     = Fulfilled \<lparr>result = None, timedOut = Some True\<rparr>"
  by (auto simp: running_result_def finish_unfold)

lemma setDeadline_running:
  "\<not> runner_done w \<Longrightarrow> running_result (runner_result w) \<Longrightarrow>
   running_result (runner_result (setDeadline d w))"
  by (cases d) (auto simp: running_result_def setDeadline_Some finish_unfold setTimeout_def)

lemma step_running:
  assumes "timer_inv w" "running_result (runner_result w)" "\<not> is_settle ev"
  shows "running_result (runner_result (step ev w))"
proof (cases ev)
  case (TimerFired h)
  then show ?thesis using assms
    by (auto simp: running_result_def finish_unfold timer_inv_def)
next
  case (SetDeadline d)
  then show ?thesis using assms setDeadline_running [of w d] by (simp add: timer_inv_def)
qed (use assms in simp_all)

lemma run_running:
  assumes "timer_inv w" "running_result (runner_result w)" "list_all (\<lambda>ev. \<not> is_settle ev) evs"
  shows "running_result (runner_result (run evs w))"
  using assms
proof (induction evs arbitrary: w)
  case Nil
  then show ?case by simp
next
  case (Cons ev evs)
  then show ?case using step_running [of w ev] step_inv [of w ev] by simp
qed

lemma new_running: "running_result (runner_result (newDeadlineRunner d hr n))"
  unfolding newDeadlineRunner_def by (rule setDeadline_running) (simp_all add: running_result_def)



text \<open>
  C2. Once the result of a runner has settled, no later event changes it: not the
  fulfillment or the rejection of the inner promise after a timeout, not a timer after
  the inner promise has settled, not a call of \<^verbatim>\<open>setDeadline\<close>. The guard on \<^verbatim>\<open>_done\<close>
  has no part in this, as nothing sets the flag; the promise takes its first settlement
  alone.
\<close>

theorem result_settles_once:
  "runner_result (run evs1 (newDeadlineRunner d hr n)) \<noteq> Pending \<Longrightarrow>
   runner_result (run (evs1 @ evs2) (newDeadlineRunner d hr n))
     = runner_result (run evs1 (newDeadlineRunner d hr n))"
  by (simp add: run_append run_settled)

theorem result_settles_once_witness:
  "runner_result (run ([TimerFired 7] @ [PromiseFulfilled (1::nat), PromiseRejected ''late'', SetDeadline (Some 0)])
      (newDeadlineRunner (Some 5000) (1, 0) 7))
     = Fulfilled \<lparr>result = None, timedOut = Some True\<rparr>
   \<and> runner_result (run ([PromiseFulfilled (1::nat)] @ [SetDeadline (Some 0), TimerFired 7, PromiseRejected ''late''])
      (newDeadlineRunner (Some 5000) (1, 0) 7))
     = Fulfilled \<lparr>result = Some 1, timedOut = None\<rparr>"
proof -
  have a: "runner_result (run [TimerFired 7] (newDeadlineRunner (Some 5000) (1, 0) 7
             :: (nat, string) DeadlineRunner)) = Fulfilled \<lparr>result = None, timedOut = Some True\<rparr>"
    by (simp add: runner_eval)
  have b: "runner_result (run [PromiseFulfilled (1::nat)] (newDeadlineRunner (Some 5000) (1, 0) 7
             :: (nat, string) DeadlineRunner)) = Fulfilled \<lparr>result = Some 1, timedOut = None\<rparr>"
    by (simp add: runner_eval)
  show ?thesis
    using result_settles_once [of "[TimerFired 7]" "Some 5000" "(1, 0)" 7
        "[PromiseFulfilled (1::nat), PromiseRejected ''late'', SetDeadline (Some 0)]"]
      result_settles_once [of "[PromiseFulfilled (1::nat)]" "Some 5000" "(1, 0)" 7
        "[SetDeadline (Some 0), TimerFired 7, PromiseRejected ''late'']"]
    by (simp only: a b) simp
qed

text \<open>
  C5. \<^verbatim>\<open>setDeadline(d)\<close> on a runner whose inner promise has not settled, after any
  events. The timer that was armed before the call is not in the table after it. With
  \<open>d\<close> later than the clock, the table holds one timer, new, with the delay \<open>d\<close> minus
  \<^verbatim>\<open>monotonicTime()\<close>, and the result is as before. With \<open>d\<close> not later than the clock,
  the result is \<^verbatim>\<open>{timedOut: true}\<close> when the call returns and no timer is armed. With
  \<open>d\<close> undefined no timer is armed, the result is as before, and it stays so until the
  inner promise settles or \<^verbatim>\<open>setDeadline\<close> is called again.
\<close>

theorem setDeadline_rearms:
  assumes "list_all (\<lambda>ev. \<not> is_settle ev) evs" and "w = run evs (newDeadlineRunner deadline hr n)"
  shows "(\<forall>h. runner_timer w = Some h \<longrightarrow> h \<notin> fst ` set (timers (setDeadline d w)))
       \<and> (case d of
            None \<Rightarrow>
              timers (setDeadline d w) = [] \<and> runner_timer (setDeadline d w) = None
              \<and> runner_result (setDeadline d w) = runner_result w
              \<and> (\<forall>evs'. list_all (\<lambda>ev. \<not> is_settle ev \<and> \<not> is_setDeadline ev) evs' \<longrightarrow>
                    runner_result (run evs' (setDeadline d w)) = runner_result w)
          | Some dl \<Rightarrow>
              if monotonicTime (hrtime w) < dl
              then timers (setDeadline d w) = [(nextTimer w, dl - monotonicTime (hrtime w))]
                 \<and> runner_timer (setDeadline d w) = Some (nextTimer w)
                 \<and> runner_result (setDeadline d w) = runner_result w
              else runner_result (setDeadline d w) = Fulfilled \<lparr>result = None, timedOut = Some True\<rparr>
                 \<and> timers (setDeadline d w) = [] \<and> runner_timer (setDeadline d w) = None)"
proof -
  have i: "timer_inv w" unfolding assms(2) by (rule run_inv) (rule new_inv)
  have rr: "running_result (runner_result w)"
    unfolding assms(2) using new_inv new_running assms(1) by (rule run_running)
  have c: "timers (setDeadline None w) = []" using i by (rule clear_timers)
  have nd: "\<not> runner_done w" using i by (simp add: timer_inv_def)
  have cases: "(case d of
            None \<Rightarrow>
              timers (setDeadline d w) = [] \<and> runner_timer (setDeadline d w) = None
              \<and> runner_result (setDeadline d w) = runner_result w
              \<and> (\<forall>evs'. list_all (\<lambda>ev. \<not> is_settle ev \<and> \<not> is_setDeadline ev) evs' \<longrightarrow>
                    runner_result (run evs' (setDeadline d w)) = runner_result w)
          | Some dl \<Rightarrow>
              if monotonicTime (hrtime w) < dl
              then timers (setDeadline d w) = [(nextTimer w, dl - monotonicTime (hrtime w))]
                 \<and> runner_timer (setDeadline d w) = Some (nextTimer w)
                 \<and> runner_result (setDeadline d w) = runner_result w
              else runner_result (setDeadline d w) = Fulfilled \<lparr>result = None, timedOut = Some True\<rparr>
                 \<and> timers (setDeadline d w) = [] \<and> runner_timer (setDeadline d w) = None)"
  proof (cases d)
    case None
    have "\<And>evs'. list_all (\<lambda>ev. \<not> is_settle ev \<and> \<not> is_setDeadline ev) evs' \<Longrightarrow>
        runner_result (run evs' (setDeadline None w)) = runner_result w"
      using run_idle [of "setDeadline None w"] c by simp
    then show ?thesis using None c by simp
  next
    case (Some dl)
    show ?thesis
    proof (cases "monotonicTime (hrtime w) < dl")
      case True
      then show ?thesis using Some c by (simp add: setDeadline_Some setTimeout_def)
    next
      case False
      have c2: "timers (setDeadline None (setDeadline None w)) = []"
        using c by (simp add: setDeadline_None [of "setDeadline None w"])
      have "runner_result (finish (Some \<lparr>result = None, timedOut = Some True\<rparr>) None (setDeadline None w))
          = Fulfilled \<lparr>result = None, timedOut = Some True\<rparr>"
        using nd rr by (intro finish_timeout_running) simp_all
      then show ?thesis using Some False nd c2
        by (simp add: setDeadline_Some finish_fields)
    qed
  qed
  have old: "\<forall>h. runner_timer w = Some h \<longrightarrow> h \<notin> fst ` set (timers (setDeadline d w))"
  proof (intro allI impI)
    fix h assume h: "runner_timer w = Some h"
    then have "h < nextTimer w" using i by (simp add: timer_inv_def)
    then show "h \<notin> fst ` set (timers (setDeadline d w))"
      using cases by (cases d) (auto split: if_splits)
  qed
  show ?thesis using old cases by simp
qed

theorem setDeadline_rearms_witness:
  "timers (run [Tick (2, 0)] (newDeadlineRunner (Some 5000) (1, 0) 7 :: (nat, string) DeadlineRunner))
     = [(7, 4000)]
   \<and> timers (setDeadline (Some 9000)
        (run [Tick (2, 0)] (newDeadlineRunner (Some 5000) (1, 0) 7 :: (nat, string) DeadlineRunner)))
     = [(8, 7000)]
   \<and> runner_result (setDeadline (Some 2000)
        (run [Tick (2, 0)] (newDeadlineRunner (Some 5000) (1, 0) 7 :: (nat, string) DeadlineRunner)))
     = Fulfilled \<lparr>result = None, timedOut = Some True\<rparr>
   \<and> timers (setDeadline None
        (run [Tick (2, 0)] (newDeadlineRunner (Some 5000) (1, 0) 7 :: (nat, string) DeadlineRunner)))
     = []"
proof -
  define w where "w = run [Tick (2, 0)] (newDeadlineRunner (Some 5000) (1, 0) 7 :: (nat, string) DeadlineRunner)"
  have e: "list_all (\<lambda>ev. \<not> is_settle ev) ([Tick (2, 0)] :: (nat, string) runner_event list)" by simp
  have t: "timers w = [(7, 4000)]" "nextTimer w = 8" "hrtime w = (2, 0)"
    by (simp_all add: w_def runner_eval)
  have m: "monotonicTime (2, 0) = 2000" by (simp add: monotonicTime_def toInt32_def)
  note a = setDeadline_rearms [OF e w_def, where d = "Some 9000"]
  note b = setDeadline_rearms [OF e w_def, where d = "Some 2000"]
  note c = setDeadline_rearms [OF e w_def, where d = "None"]
  from a have 1: "timers (setDeadline (Some 9000) w) = [(8, 7000)]"
    by (simp add: t m)
  from b have 2: "runner_result (setDeadline (Some 2000) w) = Fulfilled \<lparr>result = None, timedOut = Some True\<rparr>"
    by (simp add: t m)
  from c have 3: "timers (setDeadline None w) = []"
    by simp
  from t(1) 1 2 3 show ?thesis unfolding w_def by blast
qed

text \<open>
  C8. If the inner promise rejects with \<open>e\<close> while the result is pending, that is,
  before a timer of the runner has run, the result is rejected with \<open>e\<close>, it is neither
  \<^verbatim>\<open>{result}\<close> nor \<^verbatim>\<open>{timedOut}\<close> then or later, and no timer is armed after the
  rejection.
\<close>

theorem inner_rejection_rejects_result:
  assumes "runner_result (run evs (newDeadlineRunner d hr n)) = Pending"
  shows "runner_result (step (PromiseRejected e) (run evs (newDeadlineRunner d hr n))) = Rejected (Some e)
       \<and> timers (step (PromiseRejected e) (run evs (newDeadlineRunner d hr n))) = []
       \<and> runner_timer (step (PromiseRejected e) (run evs (newDeadlineRunner d hr n))) = None
       \<and> runner_result (run (evs @ PromiseRejected e # evs2) (newDeadlineRunner d hr n)) = Rejected (Some e)"
proof -
  let ?w = "run evs (newDeadlineRunner d hr n)"
  have i: "timer_inv ?w" by (rule run_inv) (rule new_inv)
  have r: "runner_result (step (PromiseRejected e) ?w) = Rejected (Some e)"
    using i assms by (rule reject_pending)
  then have "runner_result (run (evs @ PromiseRejected e # evs2) (newDeadlineRunner d hr n)) = Rejected (Some e)"
    by (simp add: run_append run_settled)
  then show ?thesis using r reject_pending(2,3) [OF i assms] by simp
qed

theorem inner_rejection_rejects_result_witness:
  "timers (run [Tick (2, 500000000)] (newDeadlineRunner (Some 5000) (1, 0) 7 :: (nat, string) DeadlineRunner))
     = [(7, 4000)]
   \<and> runner_result (step (PromiseRejected ''boom'')
        (run [Tick (2, 500000000)] (newDeadlineRunner (Some 5000) (1, 0) 7 :: (nat, string) DeadlineRunner)))
     = Rejected (Some ''boom'')
   \<and> timers (step (PromiseRejected ''boom'')
        (run [Tick (2, 500000000)] (newDeadlineRunner (Some 5000) (1, 0) 7 :: (nat, string) DeadlineRunner)))
     = []
   \<and> runner_result (run ([Tick (2, 500000000)] @ PromiseRejected ''boom'' # [TimerFired 7, PromiseFulfilled 3])
        (newDeadlineRunner (Some 5000) (1, 0) 7 :: (nat, string) DeadlineRunner))
     = Rejected (Some ''boom'')"
proof -
  have p: "runner_result (run [Tick (2, 500000000)]
      (newDeadlineRunner (Some 5000) (1, 0) 7 :: (nat, string) DeadlineRunner)) = Pending"
    by (simp add: runner_eval)
  have t: "timers (run [Tick (2, 500000000)]
      (newDeadlineRunner (Some 5000) (1, 0) 7 :: (nat, string) DeadlineRunner)) = [(7, 4000)]"
    by (simp add: runner_eval)
  from t inner_rejection_rejects_result [OF p, of "''boom''" "[TimerFired 7, PromiseFulfilled 3]"]
  show ?thesis by blast
qed

section \<open>Properties of the dispatcher\<close>

lemma find_SomeD: "find P xs = Some x \<Longrightarrow> x \<in> set xs \<and> P x"
  by (induction xs) (auto split: if_splits)

lemma assign_cases [case_names idle reuse spawn]:
  assumes "assign s = s \<Longrightarrow> P"
    and "\<And>t ts w. \<lbrakk>queue s = t # ts; w \<in> set (free s); w_hash w = fixtureHash t;
           assign s = s\<lparr>queue := dropWhile (\<lambda>x. fixtureHash x = fixtureHash t) (queue s),
                        free := filter (\<lambda>x. w_index x \<noteq> w_index w) (free s),
                        busy := busy s @ [w\<lparr>w_run := takeWhile (\<lambda>x. fixtureHash x = fixtureHash t) (queue s)\<rparr>]\<rparr>\<rbrakk>
          \<Longrightarrow> P"
    and "\<And>t ts fs. \<lbrakk>queue s = t # ts; fs = free s \<or> fs = tl (free s);
           assign s = spawn (fixtureHash t) (takeWhile (\<lambda>x. fixtureHash x = fixtureHash t) (queue s))
                        (s\<lparr>queue := dropWhile (\<lambda>x. fixtureHash x = fixtureHash t) (queue s), free := fs\<rparr>)\<rbrakk>
          \<Longrightarrow> P"
  shows P
proof (cases "queue s")
  case Nil
  then have "assign s = s" by (simp add: assign_def)
  then show ?thesis by (rule assms(1))
next
  case (Cons t ts)
  show ?thesis
  proof (cases "find (\<lambda>w. w_hash w = fixtureHash t) (free s)")
    case (Some w)
    have "w \<in> set (free s)" "w_hash w = fixtureHash t" using find_SomeD [OF Some] by simp_all
    moreover have "assign s = s\<lparr>queue := dropWhile (\<lambda>x. fixtureHash x = fixtureHash t) (queue s),
                        free := filter (\<lambda>x. w_index x \<noteq> w_index w) (free s),
                        busy := busy s @ [w\<lparr>w_run := takeWhile (\<lambda>x. fixtureHash x = fixtureHash t) (queue s)\<rparr>]\<rparr>"
      using Cons Some by (simp add: assign_def Let_def)
    ultimately show ?thesis using Cons by (intro assms(2))
  next
    case None
    show ?thesis
    proof (cases "length (busy s) + length (free s) < workers s")
      case True
      have "assign s = spawn (fixtureHash t) (takeWhile (\<lambda>x. fixtureHash x = fixtureHash t) (queue s))
                        (s\<lparr>queue := dropWhile (\<lambda>x. fixtureHash x = fixtureHash t) (queue s), free := free s\<rparr>)"
        using Cons None True by (simp add: assign_def Let_def)
      then show ?thesis using Cons by (intro assms(3) [of t ts "free s"]) simp_all
    next
      case False
      show ?thesis
      proof (cases "free s")
        case Nil
        then have "assign s = s" using Cons None False by (simp add: assign_def Let_def)
        then show ?thesis by (rule assms(1))
      next
        case c: (Cons lru others)
        have "assign s = spawn (fixtureHash t) (takeWhile (\<lambda>x. fixtureHash x = fixtureHash t) (queue s))
                        (s\<lparr>queue := dropWhile (\<lambda>x. fixtureHash x = fixtureHash t) (queue s), free := tl (free s)\<rparr>)"
          using Cons None False c by (simp add: assign_def Let_def)
        then show ?thesis using Cons by (intro assms(3) [of t ts "tl (free s)"]) simp_all
      qed
    qed
  qed
qed

lemma testEnd_cases [case_names idle failure last continue]:
  assumes "testEnd i st s = s \<Longrightarrow> P"
    and "\<And>w t rest k. \<lbrakk>w \<in> set (busy s); w_index w = i; w_run w = t # rest;
           k = length (filter (\<lambda>r. r_test r = t) (results s)); is_failure st;
           testEnd i st s = s\<lparr>results := results s @ [\<lparr>r_test = t, attempt = k, workerIndex = i, status = st\<rparr>],
                             busy := filter (\<lambda>x. w_index x \<noteq> i) (busy s),
                             queue := (if k < retries t then [t] else []) @ rest @ queue s\<rparr>\<rbrakk>
          \<Longrightarrow> P"
    and "\<And>w t k. \<lbrakk>w \<in> set (busy s); w_index w = i; w_run w = [t];
           k = length (filter (\<lambda>r. r_test r = t) (results s)); \<not> is_failure st;
           testEnd i st s = s\<lparr>results := results s @ [\<lparr>r_test = t, attempt = k, workerIndex = i, status = st\<rparr>],
                             busy := filter (\<lambda>x. w_index x \<noteq> i) (busy s),
                             free := free s @ [w\<lparr>w_run := []\<rparr>]\<rparr>\<rbrakk>
          \<Longrightarrow> P"
    and "\<And>w t rest k. \<lbrakk>w \<in> set (busy s); w_index w = i; w_run w = t # rest; rest \<noteq> [];
           k = length (filter (\<lambda>r. r_test r = t) (results s)); \<not> is_failure st;
           testEnd i st s = s\<lparr>results := results s @ [\<lparr>r_test = t, attempt = k, workerIndex = i, status = st\<rparr>],
                             busy := map (\<lambda>x. if w_index x = i then x\<lparr>w_run := rest\<rparr> else x) (busy s)\<rparr>\<rbrakk>
          \<Longrightarrow> P"
  shows P
proof (cases "find (\<lambda>w. w_index w = i) (busy s)")
  case None
  then have "testEnd i st s = s" by (simp add: testEnd_def)
  then show ?thesis by (rule assms(1))
next
  case (Some w)
  have w: "w \<in> set (busy s)" "w_index w = i" using find_SomeD [OF Some] by simp_all
  show ?thesis
  proof (cases "w_run w")
    case Nil
    then have "testEnd i st s = s" using Some by (simp add: testEnd_def)
    then show ?thesis by (rule assms(1))
  next
    case (Cons t rest)
    define k where "k = length (filter (\<lambda>r. r_test r = t) (results s))"
    show ?thesis
    proof (cases "is_failure st")
      case True
      have "testEnd i st s = s\<lparr>results := results s @ [\<lparr>r_test = t, attempt = k, workerIndex = i, status = st\<rparr>],
                             busy := filter (\<lambda>x. w_index x \<noteq> i) (busy s),
                             queue := (if k < retries t then [t] else []) @ rest @ queue s\<rparr>"
        using Some Cons True by (simp add: testEnd_def Let_def k_def)
      then show ?thesis using w Cons True k_def by (intro assms(2) [of w t rest k])
    next
      case False
      show ?thesis
      proof (cases "rest = []")
        case True
        have "testEnd i st s = s\<lparr>results := results s @ [\<lparr>r_test = t, attempt = k, workerIndex = i, status = st\<rparr>],
                             busy := filter (\<lambda>x. w_index x \<noteq> i) (busy s),
                             free := free s @ [w\<lparr>w_run := []\<rparr>]\<rparr>"
          using Some Cons True False by (simp add: testEnd_def Let_def k_def)
        then show ?thesis using w Cons True False k_def by (intro assms(3) [of w t k]) simp_all
      next
        case r: False
        have "testEnd i st s = s\<lparr>results := results s @ [\<lparr>r_test = t, attempt = k, workerIndex = i, status = st\<rparr>],
                             busy := map (\<lambda>x. if w_index x = i then x\<lparr>w_run := rest\<rparr> else x) (busy s)\<rparr>"
          using Some Cons r False by (simp add: testEnd_def Let_def k_def)
        then show ?thesis using w Cons r False k_def by (intro assms(4) [of w t rest k])
      qed
    qed
  qed
qed

lemma index_filter:
  assumes "distinct (map w_index ws)" "w \<in> set ws"
  shows "set (filter (\<lambda>x. w_index x \<noteq> w_index w) ws) = set ws - {w}"
proof -
  have "\<And>x. x \<in> set ws \<Longrightarrow> w_index x = w_index w \<Longrightarrow> x = w"
    using assms by (meson distinct_map inj_onD)
  then show ?thesis by auto
qed

lemma index_update:
  assumes "distinct (map w_index ws)" "w \<in> set ws"
  shows "set (map (\<lambda>x. if w_index x = w_index w then x\<lparr>w_run := r\<rparr> else x) ws)
           = insert (w\<lparr>w_run := r\<rparr>) (set ws - {w})"
proof -
  have u: "\<And>x. x \<in> set ws \<Longrightarrow> w_index x = w_index w \<Longrightarrow> x = w"
    using assms by (meson distinct_map inj_onD)
  show ?thesis
  proof (intro set_eqI iffI)
    fix y assume "y \<in> set (map (\<lambda>x. if w_index x = w_index w then x\<lparr>w_run := r\<rparr> else x) ws)"
    then obtain x where x: "x \<in> set ws" "y = (if w_index x = w_index w then x\<lparr>w_run := r\<rparr> else x)"
      by (auto simp: image_iff)
    show "y \<in> insert (w\<lparr>w_run := r\<rparr>) (set ws - {w})"
    proof (cases "w_index x = w_index w")
      case True
      then have "x = w" using x(1) u by blast
      then show ?thesis using x(2) by simp
    next
      case False
      then have "x \<noteq> w" by blast
      then show ?thesis using x False by simp
    qed
  next
    fix y assume y: "y \<in> insert (w\<lparr>w_run := r\<rparr>) (set ws - {w})"
    show "y \<in> set (map (\<lambda>x. if w_index x = w_index w then x\<lparr>w_run := r\<rparr> else x) ws)"
    proof (cases "y = w\<lparr>w_run := r\<rparr>")
      case True
      then show ?thesis using assms(2) by (force simp: image_iff)
    next
      case False
      then have "y \<in> set ws" "y \<noteq> w" using y by auto
      then have "w_index y \<noteq> w_index w" using u by blast
      then show ?thesis using \<open>y \<in> set ws\<close> by (force simp: image_iff)
    qed
  qed
qed

lemma index_update_map:
  "map w_index (map (\<lambda>x. if w_index x = i then x\<lparr>w_run := r\<rparr> else x) ws) = map w_index ws"
  by (induction ws) simp_all

lemma spawn_fields [simp]:
  "busy (spawn H r s) = busy s @ [\<lparr>w_index = nextWorkerIndex s, w_hash = H, w_run = r\<rparr>]"
  "free (spawn H r s) = free s" "queue (spawn H r s) = queue s"
  "results (spawn H r s) = results s" "nextWorkerIndex (spawn H r s) = Suc (nextWorkerIndex s)"
  "workers (spawn H r s) = workers s"
  by (simp_all add: spawn_def)

lemma distinct_map_tl:
  "distinct (map f (xs @ ys)) \<Longrightarrow> distinct (map f (xs @ tl ys))"
  by (cases ys) auto

lemma tl_free:
  assumes "fs = free s \<or> fs = tl (free s)"
  shows "set fs \<subseteq> set (free s)" "distinct (map w_index (busy s @ free s)) \<Longrightarrow> distinct (map w_index (busy s @ fs))"
proof -
  show "set fs \<subseteq> set (free s)" using assms by (cases "free s") auto
  assume d: "distinct (map w_index (busy s @ free s))"
  from assms show "distinct (map w_index (busy s @ fs))"
  proof
    assume "fs = free s" then show ?thesis using d by simp
  next
    assume "fs = tl (free s)" then show ?thesis using distinct_map_tl [OF d] by simp
  qed
qed

lemma assign_pool_inv:
  assumes "pool_inv s"
  shows "pool_inv (assign s)"
proof (cases s rule: assign_cases)
  case idle
  then show ?thesis using assms by simp
next
  case (reuse t ts w)
  have d: "distinct (map w_index (busy s))" "distinct (map w_index (free s))"
    "w_index ` set (busy s) \<inter> w_index ` set (free s) = {}"
    using assms by (auto simp: pool_inv_def)
  have f: "set (filter (\<lambda>x. w_index x \<noteq> w_index w) (free s)) = set (free s) - {w}"
    using d(2) reuse(2) by (rule index_filter)
  have "distinct (map w_index (filter (\<lambda>x. w_index x \<noteq> w_index w) (free s)))"
    using d(2) by (rule distinct_map_filter)
  moreover have "w_index w \<notin> w_index ` set (busy s)" using d(3) reuse(2) by auto
  moreover have "w_index w \<notin> w_index ` set (filter (\<lambda>x. w_index x \<noteq> w_index w) (free s))" by auto
  moreover have "w_index ` set (busy s) \<inter> w_index ` set (filter (\<lambda>x. w_index x \<noteq> w_index w) (free s)) = {}"
    using d(3) by auto
  ultimately have "distinct (map w_index (busy (assign s) @ free (assign s)))"
    using d(1) unfolding reuse(4) by (auto simp: image_iff)
  moreover have "\<forall>x\<in>set (busy (assign s) @ free (assign s)). w_index x < nextWorkerIndex (assign s)"
    using assms reuse(2) unfolding reuse(4) by (auto simp: pool_inv_def)
  moreover have "\<forall>r\<in>set (results (assign s)). workerIndex r < nextWorkerIndex (assign s)"
    using assms unfolding reuse(4) by (auto simp: pool_inv_def)
  ultimately show ?thesis unfolding pool_inv_def by blast
next
  case (spawn t ts fs)
  have d: "distinct (map w_index (busy s @ fs))"
    using tl_free(2) [OF spawn(2)] assms by (simp add: pool_inv_def)
  have b: "\<forall>x\<in>set (busy s @ fs). w_index x < nextWorkerIndex s"
    using tl_free(1) [OF spawn(2)] assms by (auto simp: pool_inv_def)
  then have "nextWorkerIndex s \<notin> w_index ` set (busy s @ fs)" by auto
  then have "distinct (map w_index (busy (assign s) @ free (assign s)))"
    using d unfolding spawn(3) by (auto simp: image_iff)
  moreover have "\<forall>x\<in>set (busy (assign s) @ free (assign s)). w_index x < nextWorkerIndex (assign s)"
    using b unfolding spawn(3) by (auto simp: less_Suc_eq)
  moreover have "\<forall>r\<in>set (results (assign s)). workerIndex r < nextWorkerIndex (assign s)"
    using assms unfolding spawn(3) by (auto simp: pool_inv_def less_Suc_eq)
  ultimately show ?thesis unfolding pool_inv_def by blast
qed

lemma testEnd_pool_inv:
  assumes "pool_inv s"
  shows "pool_inv (testEnd i st s)"
proof (cases i st s rule: testEnd_cases)
  case idle
  then show ?thesis using assms by simp
next
  case (failure w t rest k)
  have "distinct (map w_index (filter (\<lambda>x. w_index x \<noteq> i) (busy s) @ free s))"
    using assms by (auto simp: pool_inv_def distinct_map_filter)
  then show ?thesis using assms failure(1,2) unfolding failure(6) pool_inv_def by auto
next
  case (last w t k)
  have d: "distinct (map w_index (busy s))" "distinct (map w_index (free s))"
    "w_index ` set (busy s) \<inter> w_index ` set (free s) = {}"
    using assms by (auto simp: pool_inv_def)
  have "i \<notin> w_index ` set (free s)" using d(3) last(1,2) by auto
  moreover have "i \<notin> w_index ` set (filter (\<lambda>x. w_index x \<noteq> i) (busy s))" by auto
  moreover have "distinct (map w_index (filter (\<lambda>x. w_index x \<noteq> i) (busy s)))"
    using d(1) by (rule distinct_map_filter)
  moreover have "w_index ` set (filter (\<lambda>x. w_index x \<noteq> i) (busy s)) \<inter> w_index ` set (free s) = {}"
    using d(3) by auto
  ultimately have "distinct (map w_index (busy (testEnd i st s) @ free (testEnd i st s)))"
    using d(2) last(2) unfolding last(6) by (auto simp: image_iff)
  moreover have "\<forall>x\<in>set (busy (testEnd i st s) @ free (testEnd i st s)). w_index x < nextWorkerIndex (testEnd i st s)"
    using assms last(1,2) unfolding last(6) by (auto simp: pool_inv_def)
  moreover have "\<forall>r\<in>set (results (testEnd i st s)). workerIndex r < nextWorkerIndex (testEnd i st s)"
    using assms last(1,2) unfolding last(6) by (auto simp: pool_inv_def)
  ultimately show ?thesis unfolding pool_inv_def by blast
next
  case (continue w t rest k)
  have b: "busy (testEnd i st s) = map (\<lambda>x. if w_index x = i then x\<lparr>w_run := rest\<rparr> else x) (busy s)"
    "free (testEnd i st s) = free s"
    unfolding continue(7) by simp_all
  have "map w_index (busy (testEnd i st s)) = map w_index (busy s)"
    unfolding b by (rule index_update_map)
  then have "map w_index (busy (testEnd i st s) @ free (testEnd i st s)) = map w_index (busy s @ free s)"
    using b(2) by simp
  then have "distinct (map w_index (busy (testEnd i st s) @ free (testEnd i st s)))"
    using assms by (simp only: pool_inv_def)
  moreover have "\<forall>x\<in>set (busy (testEnd i st s) @ free (testEnd i st s)). w_index x < nextWorkerIndex (testEnd i st s)"
    using assms unfolding continue(7) by (auto simp: pool_inv_def)
  moreover have "\<forall>r\<in>set (results (testEnd i st s)). workerIndex r < nextWorkerIndex (testEnd i st s)"
    using assms continue(1,2) unfolding continue(7) by (auto simp: pool_inv_def)
  ultimately show ?thesis unfolding pool_inv_def by blast
qed

lemma index_unique:
  assumes "pool_inv s" "w \<in> set (busy s @ free s)" "w' \<in> set (busy s @ free s)" "w_index w = w_index w'"
  shows "w = w'"
  using assms unfolding pool_inv_def by (meson distinct_map inj_onD)

lemma hash_invD1:
  "hash_inv s \<Longrightarrow> w \<in> set (busy s) \<Longrightarrow> t \<in> set (w_run w) \<Longrightarrow> fixtureHash t = w_hash w"
  unfolding hash_inv_def by blast

lemma hash_invD2:
  "hash_inv s \<Longrightarrow> r \<in> set (results s) \<Longrightarrow> w \<in> set (busy s @ free s) \<Longrightarrow>
   workerIndex r = w_index w \<Longrightarrow> fixtureHash (r_test r) = w_hash w"
  unfolding hash_inv_def by blast

lemma hash_invD3:
  "hash_inv s \<Longrightarrow> r1 \<in> set (results s) \<Longrightarrow> r2 \<in> set (results s) \<Longrightarrow>
   workerIndex r1 = workerIndex r2 \<Longrightarrow> fixtureHash (r_test r1) = fixtureHash (r_test r2)"
  unfolding hash_inv_def by blast

lemma hash_invI:
  assumes "hash_inv s" "pool_inv s"
    and a3: "\<And>w t. w \<in> set (busy s') \<Longrightarrow> t \<in> set (w_run w) \<Longrightarrow> fixtureHash t = w_hash w"
    and a4: "\<And>w'. w' \<in> set (busy s' @ free s') \<Longrightarrow>
            (\<exists>w\<in>set (busy s @ free s). w_index w = w_index w' \<and> w_hash w = w_hash w')
          \<or> (nextWorkerIndex s \<le> w_index w')"
    and a5: "results s' = results s
         \<or> (\<exists>r w. results s' = results s @ [r] \<and> w \<in> set (busy s) \<and> workerIndex r = w_index w
                \<and> fixtureHash (r_test r) = w_hash w)"
  shows "hash_inv s'"
proof -
  have old2: "fixtureHash (r_test r) = w_hash w'"
    if r: "r \<in> set (results s)" and w': "w' \<in> set (busy s' @ free s')"
      and e: "workerIndex r = w_index w'" for r w'
  proof -
    have "workerIndex r < nextWorkerIndex s" using assms(2) r unfolding pool_inv_def by blast
    then have "\<not> nextWorkerIndex s \<le> w_index w'" using e by simp
    then obtain w where "w \<in> set (busy s @ free s)" "w_index w = w_index w'" "w_hash w = w_hash w'"
      using a4 [OF w'] by blast
    then show ?thesis using hash_invD2 [OF assms(1) r, of w] e by simp
  qed
  from a5 show ?thesis
  proof
    assume eq: "results s' = results s"
    have "\<forall>w\<in>set (busy s'). \<forall>t\<in>set (w_run w). fixtureHash t = w_hash w" using a3 by blast
    moreover have "\<forall>r\<in>set (results s'). \<forall>w\<in>set (busy s' @ free s').
          workerIndex r = w_index w \<longrightarrow> fixtureHash (r_test r) = w_hash w"
      unfolding eq using old2 by blast
    moreover have "\<forall>r1\<in>set (results s'). \<forall>r2\<in>set (results s').
          workerIndex r1 = workerIndex r2 \<longrightarrow> fixtureHash (r_test r1) = fixtureHash (r_test r2)"
      unfolding eq using hash_invD3 [OF assms(1)] by blast
    ultimately show ?thesis unfolding hash_inv_def by blast
  next
    assume "\<exists>r w. results s' = results s @ [r] \<and> w \<in> set (busy s) \<and> workerIndex r = w_index w
                \<and> fixtureHash (r_test r) = w_hash w"
    then obtain r w where rw: "results s' = results s @ [r]" "w \<in> set (busy s)"
      "workerIndex r = w_index w" "fixtureHash (r_test r) = w_hash w" by blast
    have wl: "w \<in> set (busy s @ free s)" using rw(2) by simp
    have new2: "fixtureHash (r_test r) = w_hash w'"
      if w': "w' \<in> set (busy s' @ free s')" and e: "workerIndex r = w_index w'" for w'
    proof -
      have "w_index w < nextWorkerIndex s" using assms(2) wl unfolding pool_inv_def by blast
      then have "\<not> nextWorkerIndex s \<le> w_index w'" using e rw(3) by simp
      then obtain w0 where w0: "w0 \<in> set (busy s @ free s)" "w_index w0 = w_index w'" "w_hash w0 = w_hash w'"
        using a4 [OF w'] by blast
      have "w_index w0 = w_index w" using w0(2) e rw(3) by simp
      then have "w0 = w" using index_unique [OF assms(2) w0(1) wl] by blast
      then show ?thesis using rw(4) w0(3) by simp
    qed
    have new3: "fixtureHash (r_test r2) = fixtureHash (r_test r)"
      if "r2 \<in> set (results s)" "workerIndex r2 = workerIndex r" for r2
      using hash_invD2 [OF assms(1) that(1) wl] that(2) rw(3,4) by simp
    have mem: "x = r \<or> x \<in> set (results s)" if "x \<in> set (results s')" for x
      using that unfolding rw(1) by auto
    have "\<forall>w\<in>set (busy s'). \<forall>t\<in>set (w_run w). fixtureHash t = w_hash w" using a3 by blast
    moreover have "\<forall>r\<in>set (results s'). \<forall>w\<in>set (busy s' @ free s').
          workerIndex r = w_index w \<longrightarrow> fixtureHash (r_test r) = w_hash w"
      using old2 new2 mem by blast
    moreover have "\<forall>r1\<in>set (results s'). \<forall>r2\<in>set (results s').
          workerIndex r1 = workerIndex r2 \<longrightarrow> fixtureHash (r_test r1) = fixtureHash (r_test r2)"
    proof (intro ballI impI)
      fix r1 r2 assume m: "r1 \<in> set (results s')" "r2 \<in> set (results s')"
        and e: "workerIndex r1 = workerIndex r2"
      show "fixtureHash (r_test r1) = fixtureHash (r_test r2)"
        using mem [OF m(1)] mem [OF m(2)] e new3 [of r1] new3 [of r2] hash_invD3 [OF assms(1), of r1 r2]
        by metis
    qed
    ultimately show ?thesis unfolding hash_inv_def by blast
  qed
qed

lemma assign_hash_inv:
  assumes "hash_inv s" "pool_inv s"
  shows "hash_inv (assign s)"
proof (cases s rule: assign_cases)
  case idle
  then show ?thesis using assms(1) by simp
next
  case (reuse t ts w)
  show ?thesis using assms
  proof (rule hash_invI)
    fix x y assume "x \<in> set (busy (assign s))" "y \<in> set (w_run x)"
    then have "(x \<in> set (busy s) \<and> y \<in> set (w_run x))
        \<or> (w_hash x = w_hash w \<and> y \<in> set (takeWhile (\<lambda>x. fixtureHash x = fixtureHash t) (queue s)))"
      unfolding reuse(4) by auto
    then show "fixtureHash y = w_hash x"
      using hash_invD1 [OF assms(1)] reuse(3) by (auto dest: set_takeWhileD)
  next
    fix w' assume "w' \<in> set (busy (assign s) @ free (assign s))"
    then show "(\<exists>w\<in>set (busy s @ free s). w_index w = w_index w' \<and> w_hash w = w_hash w')
          \<or> (nextWorkerIndex s \<le> w_index w')"
      using reuse(2) unfolding reuse(4) by auto
  next
    show "results (assign s) = results s
         \<or> (\<exists>r w. results (assign s) = results s @ [r] \<and> w \<in> set (busy s) \<and> workerIndex r = w_index w
                \<and> fixtureHash (r_test r) = w_hash w)"
      unfolding reuse(4) by simp
  qed
next
  case (spawn t ts fs)
  show ?thesis using assms
  proof (rule hash_invI)
    fix x y assume "x \<in> set (busy (assign s))" "y \<in> set (w_run x)"
    then have "(x \<in> set (busy s) \<and> y \<in> set (w_run x))
        \<or> (w_hash x = fixtureHash t \<and> y \<in> set (takeWhile (\<lambda>x. fixtureHash x = fixtureHash t) (queue s)))"
      unfolding spawn(3) by auto
    then show "fixtureHash y = w_hash x"
      using hash_invD1 [OF assms(1)] by (auto dest: set_takeWhileD)
  next
    fix w' assume "w' \<in> set (busy (assign s) @ free (assign s))"
    then show "(\<exists>w\<in>set (busy s @ free s). w_index w = w_index w' \<and> w_hash w = w_hash w')
          \<or> (nextWorkerIndex s \<le> w_index w')"
      using tl_free(1) [OF spawn(2)] unfolding spawn(3) by auto
  next
    show "results (assign s) = results s
         \<or> (\<exists>r w. results (assign s) = results s @ [r] \<and> w \<in> set (busy s) \<and> workerIndex r = w_index w
                \<and> fixtureHash (r_test r) = w_hash w)"
      unfolding spawn(3) by simp
  qed
qed

lemma testEnd_hash_inv:
  assumes "hash_inv s" "pool_inv s"
  shows "hash_inv (testEnd i st s)"
proof (cases i st s rule: testEnd_cases)
  case idle
  then show ?thesis using assms(1) by simp
next
  case (failure w t rest k)
  have h: "fixtureHash t = w_hash w" using hash_invD1 [OF assms(1) failure(1)] failure(3) by simp
  show ?thesis using assms
  proof (rule hash_invI)
    fix x y assume "x \<in> set (busy (testEnd i st s))" "y \<in> set (w_run x)"
    then have "x \<in> set (busy s) \<and> y \<in> set (w_run x)" unfolding failure(6) by auto
    then show "fixtureHash y = w_hash x" using hash_invD1 [OF assms(1)] by blast
  next
    fix w' assume "w' \<in> set (busy (testEnd i st s) @ free (testEnd i st s))"
    then show "(\<exists>w\<in>set (busy s @ free s). w_index w = w_index w' \<and> w_hash w = w_hash w')
          \<or> (nextWorkerIndex s \<le> w_index w')"
      unfolding failure(6) by auto
  next
    show "results (testEnd i st s) = results s
         \<or> (\<exists>r w. results (testEnd i st s) = results s @ [r] \<and> w \<in> set (busy s) \<and> workerIndex r = w_index w
                \<and> fixtureHash (r_test r) = w_hash w)"
      using failure(1,2) h unfolding failure(6) by auto
  qed
next
  case (last w t k)
  have h: "fixtureHash t = w_hash w" using hash_invD1 [OF assms(1) last(1)] last(3) by simp
  show ?thesis using assms
  proof (rule hash_invI)
    fix x y assume "x \<in> set (busy (testEnd i st s))" "y \<in> set (w_run x)"
    then have "x \<in> set (busy s) \<and> y \<in> set (w_run x)" unfolding last(6) by auto
    then show "fixtureHash y = w_hash x" using hash_invD1 [OF assms(1)] by blast
  next
    fix w' assume "w' \<in> set (busy (testEnd i st s) @ free (testEnd i st s))"
    then show "(\<exists>w\<in>set (busy s @ free s). w_index w = w_index w' \<and> w_hash w = w_hash w')
          \<or> (nextWorkerIndex s \<le> w_index w')"
      using last(1) unfolding last(6) by auto
  next
    show "results (testEnd i st s) = results s
         \<or> (\<exists>r w. results (testEnd i st s) = results s @ [r] \<and> w \<in> set (busy s) \<and> workerIndex r = w_index w
                \<and> fixtureHash (r_test r) = w_hash w)"
      using last(1,2) h unfolding last(6) by auto
  qed
next
  case (continue w t rest k)
  have h: "fixtureHash t = w_hash w" using hash_invD1 [OF assms(1) continue(1)] continue(3) by simp
  have hr: "\<And>x. x \<in> set rest \<Longrightarrow> fixtureHash x = w_hash w"
    using hash_invD1 [OF assms(1) continue(1)] continue(3) by simp
  have d: "distinct (map w_index (busy s))" using assms(2) by (simp add: pool_inv_def)
  have b: "set (busy (testEnd i st s)) = insert (w\<lparr>w_run := rest\<rparr>) (set (busy s) - {w})"
    using index_update [OF d continue(1), of rest] unfolding continue(7) continue(2) by simp
  have f: "free (testEnd i st s) = free s" unfolding continue(7) by simp
  show ?thesis using assms
  proof (rule hash_invI)
    fix x y assume "x \<in> set (busy (testEnd i st s))" "y \<in> set (w_run x)"
    then have "(x \<in> set (busy s) \<and> y \<in> set (w_run x)) \<or> (w_hash x = w_hash w \<and> y \<in> set rest)"
      unfolding b by auto
    then show "fixtureHash y = w_hash x" using hash_invD1 [OF assms(1)] hr by auto
  next
    fix w' assume "w' \<in> set (busy (testEnd i st s) @ free (testEnd i st s))"
    then have "w' = w\<lparr>w_run := rest\<rparr> \<or> w' \<in> set (busy s @ free s)" using b f by auto
    then show "(\<exists>w\<in>set (busy s @ free s). w_index w = w_index w' \<and> w_hash w = w_hash w')
          \<or> (nextWorkerIndex s \<le> w_index w')"
      using continue(1) by auto
  next
    show "results (testEnd i st s) = results s
         \<or> (\<exists>r w. results (testEnd i st s) = results s @ [r] \<and> w \<in> set (busy s) \<and> workerIndex r = w_index w
                \<and> fixtureHash (r_test r) = w_hash w)"
      using continue(1,2) h unfolding continue(7) by auto
  qed
qed

lemma step_invs:
  assumes "pool_inv s" "hash_inv s"
  shows "pool_inv (dispatch_step ev s)" "hash_inv (dispatch_step ev s)"
  using assms by (cases ev; simp add: assign_pool_inv testEnd_pool_inv assign_hash_inv testEnd_hash_inv)+

lemma dispatch_invs:
  assumes "pool_inv s" "hash_inv s"
  shows "pool_inv (dispatch evs s) \<and> hash_inv (dispatch evs s)"
  using assms by (induction evs arbitrary: s) (simp_all add: step_invs)

lemma initial_invs: "pool_inv (initial W tests)" "hash_inv (initial W tests)"
  by (simp_all add: pool_inv_def hash_inv_def initial_def)

lemma shared_worker_hash:
  assumes "r1 \<in> set (results (dispatch evs (initial W tests)))"
    "r2 \<in> set (results (dispatch evs (initial W tests)))" "workerIndex r1 = workerIndex r2"
  shows "fixtureHash (r_test r1) = fixtureHash (r_test r2)"
proof -
  have "hash_inv (dispatch evs (initial W tests))"
    using dispatch_invs [OF initial_invs, of evs W tests] by blast
  then show ?thesis using assms by (rule hash_invD3)
qed

lemma busy_distinct: "pool_inv s \<Longrightarrow> distinct (map w_index (busy s))"
  by (simp add: pool_inv_def)

lemma busy_after_filter:
  assumes "pool_inv s" "w \<in> set (busy s)" "w_index w = i"
  shows "set (filter (\<lambda>x. w_index x \<noteq> i) (busy s)) = set (busy s) - {w}"
  using index_filter [OF busy_distinct [OF assms(1)] assms(2)] assms(3) by simp

lemma busy_after_update:
  assumes "pool_inv s" "w \<in> set (busy s)" "w_index w = i"
  shows "set (map (\<lambda>x. if w_index x = i then x\<lparr>w_run := r\<rparr> else x) (busy s))
           = insert (w\<lparr>w_run := r\<rparr>) (set (busy s) - {w})"
  using index_update [OF busy_distinct [OF assms(1)] assms(2), of r] assms(3) by simp

lemma runs_invI:
  assumes "distinct (queue s)"
    and "\<And>w. w \<in> set (busy s) \<Longrightarrow> distinct (w_run w)"
    and "\<And>w t. w \<in> set (busy s) \<Longrightarrow> t \<in> set (w_run w) \<Longrightarrow> t \<notin> set (queue s)"
    and "\<And>w w' t. w \<in> set (busy s) \<Longrightarrow> w' \<in> set (busy s) \<Longrightarrow> t \<in> set (w_run w) \<Longrightarrow>
            t \<in> set (w_run w') \<Longrightarrow> w = w'"
  shows "runs_inv s"
  unfolding runs_inv_def using assms by blast

lemma runs_invD:
  assumes "runs_inv s"
  shows "distinct (queue s)"
    and "\<And>w. w \<in> set (busy s) \<Longrightarrow> distinct (w_run w)"
    and "\<And>w t. w \<in> set (busy s) \<Longrightarrow> t \<in> set (w_run w) \<Longrightarrow> t \<notin> set (queue s)"
    and "\<And>w w' t. w \<in> set (busy s) \<Longrightarrow> w' \<in> set (busy s) \<Longrightarrow> t \<in> set (w_run w) \<Longrightarrow>
            t \<in> set (w_run w') \<Longrightarrow> w = w'"
  using assms unfolding runs_inv_def by blast+

lemma distinct_split:
  assumes "distinct xs"
  shows "distinct (takeWhile P xs)" "distinct (dropWhile P xs)"
    "set (takeWhile P xs) \<inter> set (dropWhile P xs) = {}"
  using assms distinct_append [of "takeWhile P xs" "dropWhile P xs"] by simp_all

lemma assign_runs_inv:
  assumes "runs_inv s" "pool_inv s"
  shows "runs_inv (assign s)"
proof (cases s rule: assign_cases)
  case idle
  then show ?thesis using assms(1) by simp
next
  case (reuse t ts w)
  let ?P = "\<lambda>x. fixtureHash x = fixtureHash t"
  note D = runs_invD [OF assms(1)]
  note dq = distinct_split [OF D(1), of ?P]
  have sq: "set (queue s) = set (takeWhile ?P (queue s)) \<union> set (dropWhile ?P (queue s))"
    using set_append [of "takeWhile ?P (queue s)" "dropWhile ?P (queue s)"] by simp
  have wi: "w_index w \<notin> w_index ` set (busy s)"
    using assms(2) reuse(2) unfolding pool_inv_def by auto
  have q: "queue (assign s) = dropWhile ?P (queue s)" unfolding reuse(4) by simp
  have b: "set (busy (assign s)) = insert (w\<lparr>w_run := takeWhile ?P (queue s)\<rparr>) (set (busy s))"
    unfolding reuse(4) by simp
  have nw: "w\<lparr>w_run := takeWhile ?P (queue s)\<rparr> \<notin> set (busy s)"
    using wi by (metis image_eqI worker.select_convs(1) worker.surjective worker.update_convs(3))
  show ?thesis
  proof (rule runs_invI)
    show "distinct (queue (assign s))" unfolding q using dq by simp
  next
    fix x assume "x \<in> set (busy (assign s))"
    then show "distinct (w_run x)" unfolding b using D(2) dq by auto
  next
    fix x y assume "x \<in> set (busy (assign s))" "y \<in> set (w_run x)"
    then show "y \<notin> set (queue (assign s))" unfolding b q using D(3) dq sq by auto
  next
    fix x x' y assume "x \<in> set (busy (assign s))" "x' \<in> set (busy (assign s))"
      "y \<in> set (w_run x)" "y \<in> set (w_run x')"
    then show "x = x'" unfolding b using D(3,4) sq by auto
  qed
next
  case (spawn t ts fs)
  let ?P = "\<lambda>x. fixtureHash x = fixtureHash t"
  let ?n = "\<lparr>w_index = nextWorkerIndex s, w_hash = fixtureHash t, w_run = takeWhile ?P (queue s)\<rparr>"
  note D = runs_invD [OF assms(1)]
  note dq = distinct_split [OF D(1), of ?P]
  have sq: "set (queue s) = set (takeWhile ?P (queue s)) \<union> set (dropWhile ?P (queue s))"
    using set_append [of "takeWhile ?P (queue s)" "dropWhile ?P (queue s)"] by simp
  have q: "queue (assign s) = dropWhile ?P (queue s)" unfolding spawn(3) by simp
  have b: "set (busy (assign s)) = insert ?n (set (busy s))"
    unfolding spawn(3) by simp
  show ?thesis
  proof (rule runs_invI)
    show "distinct (queue (assign s))" unfolding q using dq by simp
  next
    fix x assume "x \<in> set (busy (assign s))"
    then show "distinct (w_run x)" unfolding b using D(2) dq by auto
  next
    fix x y assume "x \<in> set (busy (assign s))" "y \<in> set (w_run x)"
    then show "y \<notin> set (queue (assign s))" unfolding b q using D(3) dq sq by auto
  next
    fix x x' y assume "x \<in> set (busy (assign s))" "x' \<in> set (busy (assign s))"
      "y \<in> set (w_run x)" "y \<in> set (w_run x')"
    then show "x = x'" unfolding b using D(3,4) sq by auto
  qed
qed

lemma testEnd_runs_inv:
  assumes "runs_inv s" "pool_inv s"
  shows "runs_inv (testEnd i st s)"
proof (cases i st s rule: testEnd_cases)
  case idle
  then show ?thesis using assms(1) by simp
next
  case (failure w t rest k)
  note D = runs_invD [OF assms(1)]
  have b: "set (busy (testEnd i st s)) = set (busy s) - {w}"
    unfolding failure(6) using busy_after_filter [OF assms(2) failure(1,2)] by simp
  have q: "queue (testEnd i st s) = (if k < retries t then [t] else []) @ rest @ queue s"
    unfolding failure(6) by simp
  have dw: "distinct (t # rest)" using D(2) [OF failure(1)] failure(3) by simp
  have wq: "\<And>y. y \<in> set (t # rest) \<Longrightarrow> y \<notin> set (queue s)" using D(3) [OF failure(1)] failure(3) by simp
  show ?thesis
  proof (rule runs_invI)
    show "distinct (queue (testEnd i st s))" unfolding q using dw wq D(1) by auto
  next
    fix x assume "x \<in> set (busy (testEnd i st s))"
    then show "distinct (w_run x)" unfolding b using D(2) by auto
  next
    fix x y assume x: "x \<in> set (busy (testEnd i st s))" "y \<in> set (w_run x)"
    then have "x \<in> set (busy s)" "x \<noteq> w" unfolding b by auto
    then have "y \<notin> set (queue s)" "y \<notin> set (w_run w)"
      using D(3) [of x y] D(4) [of x w y] x(2) failure(1) by auto
    then show "y \<notin> set (queue (testEnd i st s))" unfolding q failure(3) using failure(3) by auto
  next
    fix x x' y assume "x \<in> set (busy (testEnd i st s))" "x' \<in> set (busy (testEnd i st s))"
      "y \<in> set (w_run x)" "y \<in> set (w_run x')"
    then show "x = x'" unfolding b using D(4) by auto
  qed
next
  case (last w t k)
  note D = runs_invD [OF assms(1)]
  have b: "set (busy (testEnd i st s)) = set (busy s) - {w}"
    unfolding last(6) using busy_after_filter [OF assms(2) last(1,2)] by simp
  have q: "queue (testEnd i st s) = queue s" unfolding last(6) by simp
  show ?thesis
  proof (rule runs_invI)
    show "distinct (queue (testEnd i st s))" unfolding q using D(1) by simp
  next
    fix x assume "x \<in> set (busy (testEnd i st s))"
    then show "distinct (w_run x)" unfolding b using D(2) by auto
  next
    fix x y assume x: "x \<in> set (busy (testEnd i st s))" "y \<in> set (w_run x)"
    then show "y \<notin> set (queue (testEnd i st s))" unfolding q b using D(3) by auto
  next
    fix x x' y assume "x \<in> set (busy (testEnd i st s))" "x' \<in> set (busy (testEnd i st s))"
      "y \<in> set (w_run x)" "y \<in> set (w_run x')"
    then show "x = x'" unfolding b using D(4) by auto
  qed
next
  case (continue w t rest k)
  note D = runs_invD [OF assms(1)]
  have b: "set (busy (testEnd i st s)) = insert (w\<lparr>w_run := rest\<rparr>) (set (busy s) - {w})"
    unfolding continue(7) using busy_after_update [OF assms(2) continue(1,2), of rest] by simp
  have q: "queue (testEnd i st s) = queue s" unfolding continue(7) by simp
  have dw: "distinct (t # rest)" using D(2) [OF continue(1)] continue(3) by simp
  have sub: "\<And>y. y \<in> set rest \<Longrightarrow> y \<in> set (w_run w)" using continue(3) by simp
  show ?thesis
  proof (rule runs_invI)
    show "distinct (queue (testEnd i st s))" unfolding q using D(1) by simp
  next
    fix x assume "x \<in> set (busy (testEnd i st s))"
    then show "distinct (w_run x)" unfolding b using D(2) dw by auto
  next
    fix x y assume x: "x \<in> set (busy (testEnd i st s))" "y \<in> set (w_run x)"
    then have "(x \<in> set (busy s) \<and> y \<in> set (w_run x)) \<or> y \<in> set (w_run w)"
      unfolding b using sub by auto
    then show "y \<notin> set (queue (testEnd i st s))" unfolding q using D(3) continue(1) by blast
  next
    fix x x' y assume a: "x \<in> set (busy (testEnd i st s))" "x' \<in> set (busy (testEnd i st s))"
      "y \<in> set (w_run x)" "y \<in> set (w_run x')"
    have c: "(z = w\<lparr>w_run := rest\<rparr> \<and> y \<in> set (w_run w)) \<or> (z \<in> set (busy s) \<and> z \<noteq> w \<and> y \<in> set (w_run z))"
      if "z \<in> set (busy (testEnd i st s))" "y \<in> set (w_run z)" for z
      using that unfolding b using sub by auto
    show "x = x'" using c [OF a(1,3)] c [OF a(2,4)] D(4) continue(1) by blast
  qed
qed

lemma pending_assign: "pending (assign s) = pending s"
proof (cases s rule: assign_cases)
  case idle
  then show ?thesis by simp
next
  case (reuse t ts w)
  have "set (queue s) = set (takeWhile (\<lambda>x. fixtureHash x = fixtureHash t) (queue s))
      \<union> set (dropWhile (\<lambda>x. fixtureHash x = fixtureHash t) (queue s))"
    using set_append [of "takeWhile (\<lambda>x. fixtureHash x = fixtureHash t) (queue s)"
        "dropWhile (\<lambda>x. fixtureHash x = fixtureHash t) (queue s)"] by simp
  then show ?thesis unfolding reuse(4) pending_def by auto
next
  case (spawn t ts fs)
  have "set (queue s) = set (takeWhile (\<lambda>x. fixtureHash x = fixtureHash t) (queue s))
      \<union> set (dropWhile (\<lambda>x. fixtureHash x = fixtureHash t) (queue s))"
    using set_append [of "takeWhile (\<lambda>x. fixtureHash x = fixtureHash t) (queue s)"
        "dropWhile (\<lambda>x. fixtureHash x = fixtureHash t) (queue s)"] by simp
  then show ?thesis unfolding spawn(3) pending_def by auto
qed

lemma assign_effect:
  "results (assign s) = results s"
  "nextWorkerIndex s \<le> nextWorkerIndex (assign s)"
  "w_index ` set (busy s) \<subseteq> w_index ` set (busy (assign s))"
  "\<And>j. j < nextWorkerIndex (assign s) \<Longrightarrow> j < nextWorkerIndex s \<or> j \<in> w_index ` set (busy (assign s))"
proof -
  show "results (assign s) = results s"
    by (cases s rule: assign_cases) simp_all
  show "nextWorkerIndex s \<le> nextWorkerIndex (assign s)"
    by (cases s rule: assign_cases) simp_all
  show "w_index ` set (busy s) \<subseteq> w_index ` set (busy (assign s))"
    by (cases s rule: assign_cases) auto
  show "\<And>j. j < nextWorkerIndex (assign s) \<Longrightarrow> j < nextWorkerIndex s \<or> j \<in> w_index ` set (busy (assign s))"
    by (cases s rule: assign_cases) (auto simp: less_Suc_eq)
qed

lemma testEnd_effect:
  assumes "runs_inv s" "pool_inv s" "testEnd i st s \<noteq> s"
  obtains w t rest where "w \<in> set (busy s)" "w_index w = i" "w_run w = t # rest"
    "results (testEnd i st s) = results s @
       [\<lparr>r_test = t, attempt = length (filter (\<lambda>r. r_test r = t) (results s)), workerIndex = i, status = st\<rparr>]"
    "pending s - {t} \<subseteq> pending (testEnd i st s)" "pending (testEnd i st s) \<subseteq> pending s"
    "is_failure st \<or> t \<notin> pending (testEnd i st s)" "t \<in> pending s"
    "nextWorkerIndex (testEnd i st s) = nextWorkerIndex s"
    "w_index ` set (busy s) - {i} \<subseteq> w_index ` set (busy (testEnd i st s))"
proof (cases i st s rule: testEnd_cases)
  case idle
  then show ?thesis using assms(3) by simp
next
  case (failure w t rest k)
  note D = runs_invD [OF assms(1)]
  have b: "set (busy (testEnd i st s)) = set (busy s) - {w}"
    unfolding failure(6) using busy_after_filter [OF assms(2) failure(1,2)] by simp
  have q: "queue (testEnd i st s) = (if k < retries t then [t] else []) @ rest @ queue s"
    unfolding failure(6) by simp
  have tp: "t \<in> pending s" unfolding pending_def using failure(1,3) by force
  have p1: "pending s - {t} \<subseteq> pending (testEnd i st s)"
  proof
    fix y assume y: "y \<in> pending s - {t}"
    then have "y \<in> set (queue s) \<or> (\<exists>x\<in>set (busy s). y \<in> set (w_run x))" unfolding pending_def by auto
    then show "y \<in> pending (testEnd i st s)"
    proof
      assume "y \<in> set (queue s)" then show ?thesis unfolding pending_def q by simp
    next
      assume "\<exists>x\<in>set (busy s). y \<in> set (w_run x)"
      then obtain x where x: "x \<in> set (busy s)" "y \<in> set (w_run x)" by blast
      show ?thesis
      proof (cases "x = w")
        case True
        then have "y \<in> set rest" using x(2) y failure(3) by auto
        then show ?thesis unfolding pending_def q by simp
      next
        case False
        then have "x \<in> set (busy (testEnd i st s))" unfolding b using x(1) by simp
        then show ?thesis unfolding pending_def using x(2) by blast
      qed
    qed
  qed
  have p2: "pending (testEnd i st s) \<subseteq> pending s"
  proof
    fix y assume "y \<in> pending (testEnd i st s)"
    then have "y \<in> set (t # rest) \<or> y \<in> set (queue s) \<or> (\<exists>x\<in>set (busy s). y \<in> set (w_run x))"
      unfolding pending_def q b by (auto split: if_splits)
    then show "y \<in> pending s" unfolding pending_def using failure(1,3) by force
  qed
  have r: "results (testEnd i st s) = results s @
       [\<lparr>r_test = t, attempt = length (filter (\<lambda>r. r_test r = t) (results s)), workerIndex = i, status = st\<rparr>]"
    unfolding failure(6) failure(4) by simp
  have n: "nextWorkerIndex (testEnd i st s) = nextWorkerIndex s" unfolding failure(6) by simp
  have bi: "w_index ` set (busy s) - {i} \<subseteq> w_index ` set (busy (testEnd i st s))"
    unfolding b using failure(2) by auto
  have p3: "is_failure st \<or> t \<notin> pending (testEnd i st s)" using failure(5) by simp
  show ?thesis using that [OF failure(1,2,3) r p1 p2 p3 tp n bi] .
next
  case (last w t k)
  note D = runs_invD [OF assms(1)]
  have b: "set (busy (testEnd i st s)) = set (busy s) - {w}"
    unfolding last(6) using busy_after_filter [OF assms(2) last(1,2)] by simp
  have q: "queue (testEnd i st s) = queue s"
    unfolding last(6) by simp
  have tp: "t \<in> pending s" unfolding pending_def using last(1,3) by force
  have p1: "pending s - {t} \<subseteq> pending (testEnd i st s)"
  proof
    fix y assume y: "y \<in> pending s - {t}"
    then have "y \<in> set (queue s) \<or> (\<exists>x\<in>set (busy s). y \<in> set (w_run x))" unfolding pending_def by auto
    then show "y \<in> pending (testEnd i st s)"
    proof
      assume "y \<in> set (queue s)" then show ?thesis unfolding pending_def q by simp
    next
      assume "\<exists>x\<in>set (busy s). y \<in> set (w_run x)"
      then obtain x where x: "x \<in> set (busy s)" "y \<in> set (w_run x)" by blast
      then have "x \<noteq> w" using y last(3) by auto
      then have "x \<in> set (busy (testEnd i st s))" unfolding b using x(1) by simp
      then show ?thesis unfolding pending_def using x(2) by blast
    qed
  qed
  have p2: "pending (testEnd i st s) \<subseteq> pending s"
    unfolding pending_def q b by auto
  have p3: "t \<notin> pending (testEnd i st s)"
  proof
    assume "t \<in> pending (testEnd i st s)"
    then have "t \<in> set (queue s) \<or> (\<exists>x\<in>set (busy s). x \<noteq> w \<and> t \<in> set (w_run x))"
      unfolding pending_def q b by auto
    then show False using D(3) [OF last(1), of t] D(4) [OF _ last(1), of _ t] last(3) by auto
  qed
  have r: "results (testEnd i st s) = results s @
       [\<lparr>r_test = t, attempt = length (filter (\<lambda>r. r_test r = t) (results s)), workerIndex = i, status = st\<rparr>]"
    unfolding last(6) last(4) by simp
  have n: "nextWorkerIndex (testEnd i st s) = nextWorkerIndex s" unfolding last(6) by simp
  have bi: "w_index ` set (busy s) - {i} \<subseteq> w_index ` set (busy (testEnd i st s))"
    unfolding b using last(2) by auto
  have p4: "is_failure st \<or> t \<notin> pending (testEnd i st s)" using p3 by simp
  show ?thesis using that [OF last(1,2,3) r p1 p2 p4 tp n bi] .
next
  case (continue w t rest k)
  note D = runs_invD [OF assms(1)]
  have b: "set (busy (testEnd i st s)) = insert (w\<lparr>w_run := rest\<rparr>) (set (busy s) - {w})"
    unfolding continue(7) using busy_after_update [OF assms(2) continue(1,2), of rest] by simp
  have q: "queue (testEnd i st s) = queue s"
    unfolding continue(7) by simp
  have tp: "t \<in> pending s" unfolding pending_def using continue(1,3) by force
  have dw: "distinct (t # rest)" using D(2) [OF continue(1)] continue(3) by simp
  have p1: "pending s - {t} \<subseteq> pending (testEnd i st s)"
  proof
    fix y assume y: "y \<in> pending s - {t}"
    then have "y \<in> set (queue s) \<or> (\<exists>x\<in>set (busy s). y \<in> set (w_run x))" unfolding pending_def by auto
    then show "y \<in> pending (testEnd i st s)"
    proof
      assume "y \<in> set (queue s)" then show ?thesis unfolding pending_def q by simp
    next
      assume "\<exists>x\<in>set (busy s). y \<in> set (w_run x)"
      then obtain x where x: "x \<in> set (busy s)" "y \<in> set (w_run x)" by blast
      show ?thesis
      proof (cases "x = w")
        case True
        then have "y \<in> set rest" using x(2) y continue(3) by auto
        then have "y \<in> set (w_run (w\<lparr>w_run := rest\<rparr>))" by simp
        then show ?thesis unfolding pending_def b by blast
      next
        case False
        then have "x \<in> set (busy (testEnd i st s))" unfolding b using x(1) by simp
        then show ?thesis unfolding pending_def using x(2) by blast
      qed
    qed
  qed
  have p2: "pending (testEnd i st s) \<subseteq> pending s"
  proof
    fix y assume "y \<in> pending (testEnd i st s)"
    then have "y \<in> set rest \<or> y \<in> set (queue s) \<or> (\<exists>x\<in>set (busy s). y \<in> set (w_run x))"
      unfolding pending_def q b by auto
    then show "y \<in> pending s" unfolding pending_def using continue(1,3) by force
  qed
  have p3: "t \<notin> pending (testEnd i st s)"
  proof
    assume "t \<in> pending (testEnd i st s)"
    then have "t \<in> set rest \<or> t \<in> set (queue s) \<or> (\<exists>x\<in>set (busy s). x \<noteq> w \<and> t \<in> set (w_run x))"
      unfolding pending_def q b by auto
    then show False using dw D(3) [OF continue(1), of t] D(4) [OF _ continue(1), of _ t] continue(3) by auto
  qed
  have r: "results (testEnd i st s) = results s @
       [\<lparr>r_test = t, attempt = length (filter (\<lambda>r. r_test r = t) (results s)), workerIndex = i, status = st\<rparr>]"
    unfolding continue(7) continue(5) by simp
  have n: "nextWorkerIndex (testEnd i st s) = nextWorkerIndex s" unfolding continue(7) by simp
  have bi: "w_index ` set (busy s) - {i} \<subseteq> w_index ` set (busy (testEnd i st s))"
    unfolding b by auto
  have p4: "is_failure st \<or> t \<notin> pending (testEnd i st s)" using p3 by simp
  show ?thesis using that [OF continue(1,2,3) r p1 p2 p4 tp n bi] .
qed

lemma assign_book:
  assumes "redo_inv s" "book_inv tests s" "attempt_inv s" "once_inv s" "cover_inv s"
  shows "redo_inv (assign s)" "book_inv tests (assign s)" "attempt_inv (assign s)"
    "once_inv (assign s)" "cover_inv (assign s)"
proof -
  note e = assign_effect [where s = s]
  show "redo_inv (assign s)" using assms(1) unfolding redo_inv_def e(1) pending_assign .
  show "book_inv tests (assign s)" using assms(2) unfolding book_inv_def e(1) pending_assign .
  show "attempt_inv (assign s)" using assms(3) unfolding attempt_inv_def e(1) .
  show "once_inv (assign s)" using assms(4) unfolding once_inv_def e(1) .
  show "cover_inv (assign s)"
    unfolding cover_inv_def e(1)
  proof (intro allI impI)
    fix j assume "j < nextWorkerIndex (assign s)"
    then have "j < nextWorkerIndex s \<or> j \<in> w_index ` set (busy (assign s))" by (rule e(4))
    then show "j \<in> w_index ` set (busy (assign s)) \<or> j \<in> workerIndex ` set (results s)"
      using assms(5) e(3) unfolding cover_inv_def by blast
  qed
qed

lemma testEnd_book:
  assumes "runs_inv s" "pool_inv s"
    and "redo_inv s" "book_inv tests s" "attempt_inv s" "once_inv s" "cover_inv s"
  shows "redo_inv (testEnd i st s)" "book_inv tests (testEnd i st s)" "attempt_inv (testEnd i st s)"
    "once_inv (testEnd i st s)" "cover_inv (testEnd i st s)"
proof -
  have "redo_inv (testEnd i st s) \<and> book_inv tests (testEnd i st s) \<and> attempt_inv (testEnd i st s)
      \<and> once_inv (testEnd i st s) \<and> cover_inv (testEnd i st s)"
  proof (cases "testEnd i st s = s")
    case True
    then show ?thesis using assms by simp
  next
    case False
    from assms(1,2) False obtain w t rest where e:
      "w \<in> set (busy s)" "w_index w = i" "w_run w = t # rest"
      "results (testEnd i st s) = results s @
         [\<lparr>r_test = t, attempt = length (filter (\<lambda>r. r_test r = t) (results s)), workerIndex = i, status = st\<rparr>]"
      "pending s - {t} \<subseteq> pending (testEnd i st s)" "pending (testEnd i st s) \<subseteq> pending s"
      "is_failure st \<or> t \<notin> pending (testEnd i st s)" "t \<in> pending s"
      "nextWorkerIndex (testEnd i st s) = nextWorkerIndex s"
      "w_index ` set (busy s) - {i} \<subseteq> w_index ` set (busy (testEnd i st s))"
      by (rule testEnd_effect)
    define k where "k = length (filter (\<lambda>r. r_test r = t) (results s))"
    define n where "n = \<lparr>r_test = t, attempt = k, workerIndex = i, status = st\<rparr>"
    have rs: "set (results (testEnd i st s)) = insert n (set (results s))"
      unfolding e(4) n_def k_def by simp
    have nf: "r_test n = t" "attempt n = k" "workerIndex n = i" "status n = st"
      unfolding n_def by simp_all
    have old_fail: "is_failure (status r)" if "r \<in> set (results s)" "r_test r = t" for r
      using assms(3) that e(8) unfolding redo_inv_def by blast
    have k0: "k = 0 \<longleftrightarrow> (\<forall>r\<in>set (results s). r_test r \<noteq> t)"
      unfolding k_def by (auto simp: filter_empty_conv)
    have 1: "redo_inv (testEnd i st s)"
      unfolding redo_inv_def rs
    proof (intro ballI impI)
      fix r assume r: "r \<in> insert n (set (results s))" "r_test r \<in> pending (testEnd i st s)"
      show "is_failure (status r)"
      proof (cases "r = n")
        case True
        then show ?thesis using r(2) e(7) nf by auto
      next
        case False
        then have "r \<in> set (results s)" using r(1) by simp
        moreover have "r_test r \<in> pending s" using r(2) e(6) by blast
        ultimately show ?thesis using assms(3) unfolding redo_inv_def by blast
      qed
    qed
    have 2: "book_inv tests (testEnd i st s)"
    proof -
      have "pending (testEnd i st s) \<union> r_test ` insert n (set (results s))
          = pending s \<union> r_test ` set (results s)"
        using e(5,6,8) nf(1) by auto
      then show ?thesis using assms(4) unfolding book_inv_def rs by simp
    qed
    have 3: "attempt_inv (testEnd i st s)"
      unfolding attempt_inv_def rs
    proof (intro ballI conjI impI)
      fix r assume r: "r \<in> insert n (set (results s))"
      show "\<exists>r0\<in>insert n (set (results s)). r_test r0 = r_test r \<and> attempt r0 = 0"
      proof (cases "r = n")
        case True
        show ?thesis
        proof (cases "k = 0")
          case True
          then show ?thesis using \<open>r = n\<close> nf by auto
        next
          case False
          then obtain r1 where "r1 \<in> set (results s)" "r_test r1 = t" using k0 by blast
          then obtain r0 where "r0 \<in> set (results s)" "r_test r0 = t" "attempt r0 = 0"
            using assms(5) unfolding attempt_inv_def by metis
          then show ?thesis using \<open>r = n\<close> nf by auto
        qed
      next
        case False
        then have "r \<in> set (results s)" using r by simp
        then obtain r0 where "r0 \<in> set (results s)" "r_test r0 = r_test r" "attempt r0 = 0"
          using assms(5) unfolding attempt_inv_def by metis
        then show ?thesis by auto
      qed
    next
      fix r assume r: "r \<in> insert n (set (results s))" "attempt r \<noteq> 0"
      show "\<exists>r'\<in>insert n (set (results s)). r_test r' = r_test r \<and> is_failure (status r')"
      proof (cases "r = n")
        case True
        then have "k \<noteq> 0" using r(2) nf by simp
        then obtain r1 where "r1 \<in> set (results s)" "r_test r1 = t" using k0 by blast
        then show ?thesis using old_fail \<open>r = n\<close> nf by auto
      next
        case False
        then have "r \<in> set (results s)" using r by simp
        then obtain r' where "r' \<in> set (results s)" "r_test r' = r_test r" "is_failure (status r')"
          using assms(5) r(2) unfolding attempt_inv_def by metis
        then show ?thesis by auto
      qed
    qed
    have 4: "once_inv (testEnd i st s)"
      unfolding once_inv_def
    proof
      assume a: "\<forall>r\<in>set (results (testEnd i st s)). \<not> is_failure (status r)"
      then have "\<forall>r\<in>set (results s). \<not> is_failure (status r)" unfolding rs by simp
      then have d: "distinct (map r_test (results s))" and "t \<notin> r_test ` set (results s)"
        using assms(6) old_fail unfolding once_inv_def by auto
      then show "distinct (map r_test (results (testEnd i st s)))"
        unfolding e(4) by simp
    qed
    have 5: "cover_inv (testEnd i st s)"
      unfolding cover_inv_def e(9) rs
    proof (intro allI impI)
      fix j assume "j < nextWorkerIndex s"
      then have "j \<in> w_index ` set (busy s) \<or> j \<in> workerIndex ` set (results s)"
        using assms(7) unfolding cover_inv_def by blast
      then show "j \<in> w_index ` set (busy (testEnd i st s)) \<or> j \<in> workerIndex ` insert n (set (results s))"
        using e(10) nf(3) by (cases "j = i") auto
    qed
    show ?thesis using 1 2 3 4 5 by blast
  qed
  then show "redo_inv (testEnd i st s)" "book_inv tests (testEnd i st s)" "attempt_inv (testEnd i st s)"
    "once_inv (testEnd i st s)" "cover_inv (testEnd i st s)" by blast+
qed

lemma step_sched_inv:
  assumes "sched_inv tests s"
  shows "sched_inv tests (dispatch_step ev s)"
proof (cases ev)
  case Assign
  then show ?thesis using assms assign_book [of s tests]
    unfolding sched_inv_def by (simp add: assign_pool_inv assign_hash_inv assign_runs_inv)
next
  case (TestEnd i st)
  then show ?thesis using assms testEnd_book [of s tests i st]
    unfolding sched_inv_def by (simp add: testEnd_pool_inv testEnd_hash_inv testEnd_runs_inv)
qed

lemma dispatch_sched_inv:
  "sched_inv tests s \<Longrightarrow> sched_inv tests (dispatch evs s)"
  by (induction evs arbitrary: s) (simp_all add: step_sched_inv)

lemma initial_sched_inv:
  "distinct tests \<Longrightarrow> sched_inv tests (initial W tests)"
  unfolding sched_inv_def
  by (simp add: initial_invs)
     (simp add: initial_def runs_inv_def redo_inv_def book_inv_def attempt_inv_def once_inv_def
        cover_inv_def pending_def)

lemma reachable_inv:
  "distinct tests \<Longrightarrow> sched_inv tests (dispatch evs (initial W tests))"
  by (rule dispatch_sched_inv) (rule initial_sched_inv)



lemma adjacent_Nil [simp]: "\<not> adjacent a b []"
  unfolding adjacent_def by simp














lemma finished_report:
  assumes "distinct tests" "finished (dispatch evs (initial W tests))"
    and "\<forall>r\<in>set (results (dispatch evs (initial W tests))). status r = Passed"
  shows "r_test ` set (results (dispatch evs (initial W tests))) = set tests"
    and "distinct (map r_test (results (dispatch evs (initial W tests))))"
    and "length (results (dispatch evs (initial W tests))) = length tests"
    and "passed (results (dispatch evs (initial W tests))) = length tests"
    and "exitCode (results (dispatch evs (initial W tests))) = 0"
    and "workerIndex ` set (results (dispatch evs (initial W tests)))
           = {0..<nextWorkerIndex (dispatch evs (initial W tests))}"
    and "\<forall>r\<in>set (results (dispatch evs (initial W tests))). attempt r = 0"
proof -
  let ?s = "dispatch evs (initial W tests)"
  have inv: "sched_inv tests ?s" using assms(1) by (rule reachable_inv)
  have nf: "\<forall>r\<in>set (results ?s). \<not> is_failure (status r)" using assms(3) by (simp add: is_failure_def)
  have "pending ?s = {}" using assms(2) unfolding finished_def pending_def by simp
  then show 1: "r_test ` set (results ?s) = set tests"
    using inv unfolding sched_inv_def book_inv_def by simp
  show 2: "distinct (map r_test (results ?s))"
    using inv nf unfolding sched_inv_def once_inv_def by blast
  have "length (results ?s) = length (map r_test (results ?s))" by simp
  also have "\<dots> = card (set (map r_test (results ?s)))" using distinct_card [OF 2] by simp
  also have "\<dots> = card (set tests)" using 1 by simp
  also have "\<dots> = length tests" using assms(1) by (rule distinct_card)
  finally show 3: "length (results ?s) = length tests" .
  show a0: "\<forall>r\<in>set (results ?s). attempt r = 0"
    using inv nf unfolding sched_inv_def attempt_inv_def by blast
  have "filter (\<lambda>r. status r = Passed \<and> attempt r = 0) (results ?s) = results ?s"
    using a0 assms(3) by (simp add: filter_id_conv)
  then show "passed (results ?s) = length tests" using 3 unfolding passed_def by simp
  show "exitCode (results ?s) = 0" using nf unfolding exitCode_def by (simp add: list_ex_iff)
  have c: "\<forall>j<nextWorkerIndex ?s. j \<in> workerIndex ` set (results ?s)"
    using inv assms(2) unfolding sched_inv_def cover_inv_def finished_def by simp
  have b: "\<forall>r\<in>set (results ?s). workerIndex r < nextWorkerIndex ?s"
    using inv unfolding sched_inv_def pool_inv_def by blast
  show "workerIndex ` set (results ?s) = {0..<nextWorkerIndex ?s}"
    using c b by auto
qed


lemma shared_worker_report:
  "(\<forall>r1\<in>set (results (dispatch evs (initial W tests))).
      \<forall>r2\<in>set (results (dispatch evs (initial W tests))).
        workerIndex r1 = workerIndex r2 \<longrightarrow> fixtureHash (r_test r1) = fixtureHash (r_test r2))
   \<and> (distinct [fixtureHash t1, fixtureHash t2, fixtureHash t3]
       \<and> finished (dispatch sched (initial W [t1, t2, t3]))
       \<and> (\<forall>r\<in>set (results (dispatch sched (initial W [t1, t2, t3]))). status r = Passed)
      \<longrightarrow> r_test ` set (results (dispatch sched (initial W [t1, t2, t3]))) = {t1, t2, t3}
        \<and> workerIndex ` set (results (dispatch sched (initial W [t1, t2, t3]))) = {0, 1, 2}
        \<and> distinct (map workerIndex (results (dispatch sched (initial W [t1, t2, t3]))))
        \<and> passed (results (dispatch sched (initial W [t1, t2, t3]))) = 3
        \<and> exitCode (results (dispatch sched (initial W [t1, t2, t3]))) = 0)"
proof (intro conjI impI ballI)
  fix r1 r2
  assume "r1 \<in> set (results (dispatch evs (initial W tests)))"
    "r2 \<in> set (results (dispatch evs (initial W tests)))" "workerIndex r1 = workerIndex r2"
  then show "fixtureHash (r_test r1) = fixtureHash (r_test r2)" by (rule shared_worker_hash)
next
  let ?s = "dispatch sched (initial W [t1, t2, t3])"
  assume a: "distinct [fixtureHash t1, fixtureHash t2, fixtureHash t3] \<and> finished ?s
       \<and> (\<forall>r\<in>set (results ?s). status r = Passed)"
  then have d: "distinct [t1, t2, t3]" by auto
  note R = finished_report [OF d, of sched W]
  have f: "finished ?s" and p: "\<forall>r\<in>set (results ?s). status r = Passed" using a by blast+
  show 1: "r_test ` set (results ?s) = {t1, t2, t3}" using R(1) [OF f p] by simp
  have hinj: "x = y" if "x \<in> {t1, t2, t3}" "y \<in> {t1, t2, t3}" "fixtureHash x = fixtureHash y" for x y
    using that a by auto
  have winj: "inj_on workerIndex (set (results ?s))"
  proof (rule inj_onI)
    fix x y assume xy: "x \<in> set (results ?s)" "y \<in> set (results ?s)" "workerIndex x = workerIndex y"
    then have "fixtureHash (r_test x) = fixtureHash (r_test y)" by (rule shared_worker_hash)
    moreover have "r_test x \<in> {t1, t2, t3}" "r_test y \<in> {t1, t2, t3}" using xy(1,2) 1 by blast+
    ultimately have "r_test x = r_test y" using hinj by blast
    then show "x = y" using R(2) [OF f p] xy(1,2) by (meson distinct_map inj_onD)
  qed
  have dr: "distinct (results ?s)" using R(2) [OF f p] by (rule distinct_map [THEN iffD1, THEN conjunct1])
  show 2: "distinct (map workerIndex (results ?s))" using dr winj by (simp add: distinct_map)
  have "card (workerIndex ` set (results ?s)) = card (set (results ?s))" using winj by (rule card_image)
  also have "\<dots> = length (results ?s)" using dr by (rule distinct_card)
  also have "\<dots> = 3" using R(3) [OF f p] by simp
  finally have "card {0..<nextWorkerIndex ?s} = 3" using R(6) [OF f p] by simp
  then have "nextWorkerIndex ?s = 3" by simp
  then show "workerIndex ` set (results ?s) = {0, 1, 2}" using R(6) [OF f p] by auto
  show "passed (results ?s) = 3" using R(4) [OF f p] by simp
  show "exitCode (results ?s) = 0" using R(5) [OF f p] .
qed


lemmas dispatch_eval =
  initial_def assign_def testEnd_def spawn_def Let_def plain_test_def is_failure_def

lemma three_projects_finish:
  assumes "0 < W" "distinct [fixtureHash t1, fixtureHash t2, fixtureHash t3]"
  shows "finished (dispatch [Assign, TestEnd 0 Passed, Assign, TestEnd 1 Passed, Assign, TestEnd 2 Passed]
           (initial W [t1, t2, t3]))
       \<and> (\<forall>r\<in>set (results (dispatch [Assign, TestEnd 0 Passed, Assign, TestEnd 1 Passed, Assign, TestEnd 2 Passed]
           (initial W [t1, t2, t3]))). status r = Passed)"
proof -
  have h: "fixtureHash t2 \<noteq> fixtureHash t1" "fixtureHash t3 \<noteq> fixtureHash t2"
    "fixtureHash t1 \<noteq> fixtureHash t2" "fixtureHash t3 \<noteq> fixtureHash t1"
    "fixtureHash t1 \<noteq> fixtureHash t3" "fixtureHash t2 \<noteq> fixtureHash t3"
    using assms(2) by auto
  consider "W = 1" | "W = 2" | "2 < W" using assms(1) by linarith
  then show ?thesis
  proof cases
    case 1
    then show ?thesis using h by (simp add: dispatch_eval finished_def)
  next
    case 2
    then show ?thesis using h by (simp add: dispatch_eval finished_def)
  next
    case 3
    then show ?thesis using h by (simp add: dispatch_eval finished_def)
  qed
qed


text \<open>
  C3, in the direction that holds. Two tests share a worker only if their FixtureHashes
  match: in every state that a schedule reaches, two results with one \<^verbatim>\<open>workerIndex\<close> are
  results of tests with one \<^verbatim>\<open>fixtureHash\<close>. In particular, with three tests of three
  distinct hashes (one spec under three projects), for every size of the pool and every
  schedule that finishes the run with each attempt passed, every test has run, the three
  results have the \<^verbatim>\<open>workerIndex\<close> values 0, 1 and 2, one each, 3 tests have passed and the
  exit code is 0. With a pool of one worker or more there is such a schedule.
\<close>

theorem shared_worker_same_hash:
  "(\<forall>r1\<in>set (results (dispatch evs (initial W tests))).
      \<forall>r2\<in>set (results (dispatch evs (initial W tests))).
        workerIndex r1 = workerIndex r2 \<longrightarrow> fixtureHash (r_test r1) = fixtureHash (r_test r2))
   \<and> (distinct [fixtureHash t1, fixtureHash t2, fixtureHash t3]
       \<and> finished (dispatch sched (initial W [t1, t2, t3]))
       \<and> (\<forall>r\<in>set (results (dispatch sched (initial W [t1, t2, t3]))). status r = Passed)
      \<longrightarrow> r_test ` set (results (dispatch sched (initial W [t1, t2, t3]))) = {t1, t2, t3}
        \<and> workerIndex ` set (results (dispatch sched (initial W [t1, t2, t3]))) = {0, 1, 2}
        \<and> distinct (map workerIndex (results (dispatch sched (initial W [t1, t2, t3]))))
        \<and> passed (results (dispatch sched (initial W [t1, t2, t3]))) = 3
        \<and> exitCode (results (dispatch sched (initial W [t1, t2, t3]))) = 0)
   \<and> (0 < W \<and> distinct [fixtureHash t1, fixtureHash t2, fixtureHash t3]
      \<longrightarrow> finished (dispatch [Assign, TestEnd 0 Passed, Assign, TestEnd 1 Passed, Assign, TestEnd 2 Passed]
             (initial W [t1, t2, t3]))
        \<and> (\<forall>r\<in>set (results (dispatch [Assign, TestEnd 0 Passed, Assign, TestEnd 1 Passed, Assign, TestEnd 2 Passed]
             (initial W [t1, t2, t3]))). status r = Passed))"
proof (intro conjI)
  show "(\<forall>r1\<in>set (results (dispatch evs (initial W tests))).
      \<forall>r2\<in>set (results (dispatch evs (initial W tests))).
        workerIndex r1 = workerIndex r2 \<longrightarrow> fixtureHash (r_test r1) = fixtureHash (r_test r2))"
    by (rule shared_worker_report [THEN conjunct1])
  show "(distinct [fixtureHash t1, fixtureHash t2, fixtureHash t3]
       \<and> finished (dispatch sched (initial W [t1, t2, t3]))
       \<and> (\<forall>r\<in>set (results (dispatch sched (initial W [t1, t2, t3]))). status r = Passed)
      \<longrightarrow> r_test ` set (results (dispatch sched (initial W [t1, t2, t3]))) = {t1, t2, t3}
        \<and> workerIndex ` set (results (dispatch sched (initial W [t1, t2, t3]))) = {0, 1, 2}
        \<and> distinct (map workerIndex (results (dispatch sched (initial W [t1, t2, t3]))))
        \<and> passed (results (dispatch sched (initial W [t1, t2, t3]))) = 3
        \<and> exitCode (results (dispatch sched (initial W [t1, t2, t3]))) = 0)"
    by (rule shared_worker_report [THEN conjunct2])
  show "(0 < W \<and> distinct [fixtureHash t1, fixtureHash t2, fixtureHash t3]
      \<longrightarrow> finished (dispatch [Assign, TestEnd 0 Passed, Assign, TestEnd 1 Passed, Assign, TestEnd 2 Passed]
             (initial W [t1, t2, t3]))
        \<and> (\<forall>r\<in>set (results (dispatch [Assign, TestEnd 0 Passed, Assign, TestEnd 1 Passed, Assign, TestEnd 2 Passed]
             (initial W [t1, t2, t3]))). status r = Passed))"
    by (intro impI three_projects_finish) (elim conjE, assumption)+
qed


lemma run_three_projects:
  "dispatch [Assign, Assign, Assign, TestEnd 0 Passed, TestEnd 1 Passed, Assign, TestEnd 2 Passed]
     (initial 2 [plain_test 1 (10::nat), plain_test 2 20, plain_test 3 30])
   = \<lparr>workers = 2, queue = [], busy = [],
       free = [\<lparr>w_index = 1, w_hash = 20, w_run = []\<rparr>, \<lparr>w_index = 2, w_hash = 30, w_run = []\<rparr>],
       nextWorkerIndex = 3,
       results = [\<lparr>r_test = plain_test 1 10, attempt = 0, workerIndex = 0, status = Passed\<rparr>,
                  \<lparr>r_test = plain_test 2 20, attempt = 0, workerIndex = 1, status = Passed\<rparr>,
                  \<lparr>r_test = plain_test 3 30, attempt = 0, workerIndex = 2, status = Passed\<rparr>]\<rparr>"
  by (simp add: dispatch_eval)

lemma run_one_file:
  "dispatch [Assign, TestEnd 0 Passed, TestEnd 0 Passed, TestEnd 0 Passed]
     (initial 2 [plain_test 1 (10::nat), plain_test 2 10, plain_test 3 10])
   = \<lparr>workers = 2, queue = [], busy = [],
       free = [\<lparr>w_index = 0, w_hash = 10, w_run = []\<rparr>],
       nextWorkerIndex = 1,
       results = [\<lparr>r_test = plain_test 1 10, attempt = 0, workerIndex = 0, status = Passed\<rparr>,
                  \<lparr>r_test = plain_test 2 10, attempt = 0, workerIndex = 0, status = Passed\<rparr>,
                  \<lparr>r_test = plain_test 3 10, attempt = 0, workerIndex = 0, status = Passed\<rparr>]\<rparr>"
  by (simp add: dispatch_eval)

theorem shared_worker_same_hash_witness:
  "finished (dispatch [Assign, Assign, Assign, TestEnd 0 Passed, TestEnd 1 Passed, Assign, TestEnd 2 Passed]
       (initial 2 [plain_test 1 (10::nat), plain_test 2 20, plain_test 3 30]))
   \<and> workerIndex ` set (results (dispatch [Assign, Assign, Assign, TestEnd 0 Passed, TestEnd 1 Passed, Assign, TestEnd 2 Passed]
       (initial 2 [plain_test 1 (10::nat), plain_test 2 20, plain_test 3 30]))) = {0, 1, 2}
   \<and> passed (results (dispatch [Assign, Assign, Assign, TestEnd 0 Passed, TestEnd 1 Passed, Assign, TestEnd 2 Passed]
       (initial 2 [plain_test 1 (10::nat), plain_test 2 20, plain_test 3 30]))) = 3
   \<and> exitCode (results (dispatch [Assign, Assign, Assign, TestEnd 0 Passed, TestEnd 1 Passed, Assign, TestEnd 2 Passed]
       (initial 2 [plain_test 1 (10::nat), plain_test 2 20, plain_test 3 30]))) = 0
   \<and> fixtureHash (r_test (results (dispatch [Assign, TestEnd 0 Passed, TestEnd 0 Passed, TestEnd 0 Passed]
       (initial 2 [plain_test 1 (10::nat), plain_test 2 10, plain_test 3 10])) ! 0))
     = fixtureHash (r_test (results (dispatch [Assign, TestEnd 0 Passed, TestEnd 0 Passed, TestEnd 0 Passed]
       (initial 2 [plain_test 1 (10::nat), plain_test 2 10, plain_test 3 10])) ! 2))
   \<and> finished (dispatch [Assign, TestEnd 0 Passed, Assign, TestEnd 1 Passed, Assign, TestEnd 2 Passed]
       (initial 2 [plain_test 1 (10::nat), plain_test 2 20, plain_test 3 30]))"
proof -
  define s where "s = dispatch [Assign, Assign, Assign, TestEnd 0 Passed, TestEnd 1 Passed, Assign, TestEnd 2 Passed]
       (initial 2 [plain_test 1 (10::nat), plain_test 2 20, plain_test 3 30])"
  define u where "u = dispatch [Assign, TestEnd 0 Passed, TestEnd 0 Passed, TestEnd 0 Passed]
       (initial 2 [plain_test 1 (10::nat), plain_test 2 10, plain_test 3 10])"
  have f: "finished s" unfolding s_def run_three_projects finished_def by simp
  have p: "\<forall>r\<in>set (results s). status r = Passed" unfolding s_def run_three_projects by simp
  have d: "distinct [fixtureHash (plain_test 1 (10::nat)), fixtureHash (plain_test 2 (20::nat)),
      fixtureHash (plain_test 3 (30::nat))]" by (simp add: plain_test_def)
  note t = shared_worker_same_hash [where ?t1.0 = "plain_test 1 (10::nat)" and ?t2.0 = "plain_test 2 20"
      and ?t3.0 = "plain_test 3 30" and W = 2
      and sched = "[Assign, Assign, Assign, TestEnd 0 Passed, TestEnd 1 Passed, Assign, TestEnd 2 Passed]"
      and evs = "[Assign, TestEnd 0 Passed, TestEnd 0 Passed, TestEnd 0 Passed]"
      and tests = "[plain_test 1 (10::nat), plain_test 2 10, plain_test 3 10]", folded s_def u_def]
  have c: "r_test ` set (results s) = {plain_test 1 10, plain_test 2 20, plain_test 3 30}
      \<and> workerIndex ` set (results s) = {0, 1, 2} \<and> distinct (map workerIndex (results s))
      \<and> passed (results s) = 3 \<and> exitCode (results s) = 0"
    by (rule t [THEN conjunct2, THEN conjunct1, THEN mp]) (intro conjI d f p)
  have pos: "0 < (2::nat)" by simp
  have 3: "finished (dispatch [Assign, TestEnd 0 Passed, Assign, TestEnd 1 Passed, Assign, TestEnd 2 Passed]
       (initial 2 [plain_test 1 (10::nat), plain_test 2 20, plain_test 3 30]))"
    by (rule t [THEN conjunct2, THEN conjunct2, THEN mp, THEN conjunct1]) (intro conjI pos d)
  have m: "results u ! 0 \<in> set (results u)" "results u ! 2 \<in> set (results u)"
    "workerIndex (results u ! 0) = workerIndex (results u ! 2)"
    unfolding u_def run_one_file by simp_all
  have 2: "fixtureHash (r_test (results u ! 0)) = fixtureHash (r_test (results u ! 2))"
    by (rule t [THEN conjunct1, THEN bspec, THEN bspec, THEN mp]) (rule m)+
  show ?thesis unfolding s_def [symmetric] u_def [symmetric]
    by (intro conjI f 2 3 c [THEN conjunct2, THEN conjunct1]
        c [THEN conjunct2, THEN conjunct2, THEN conjunct2, THEN conjunct1]
        c [THEN conjunct2, THEN conjunct2, THEN conjunct2, THEN conjunct2])
qed

text \<open>
  The converse of C3 does not hold: after a failure the worker is discarded, and the next
  test, of the same hash, runs in a new one.
\<close>

theorem shared_worker_iff_counterexample:
  "results (dispatch [Assign, TestEnd 0 Failed, Assign, TestEnd 1 Passed]
       (initial 2 [plain_test 1 (10::nat), plain_test 2 10]))
     = [\<lparr>r_test = plain_test 1 10, attempt = 0, workerIndex = 0, status = Failed\<rparr>,
        \<lparr>r_test = plain_test 2 10, attempt = 0, workerIndex = 1, status = Passed\<rparr>]
   \<and> \<not> (workerIndex \<lparr>r_test = plain_test 1 (10::nat), attempt = 0, workerIndex = 0, status = Failed\<rparr>
          = workerIndex \<lparr>r_test = plain_test 2 (10::nat), attempt = 0, workerIndex = 1, status = Passed\<rparr>
        \<longleftrightarrow> fixtureHash (plain_test 1 (10::nat)) = fixtureHash (plain_test 2 (10::nat)))"
  by (simp add: dispatch_eval is_failure_def)



end
